theory Spec2Isabelle
  imports Complex_Main "HOL-Library.Sublist" "HOL-Library.Multiset"
begin

section \<open>Strings\<close>

text \<open>
  A Python \<open>str\<close> is modelled as a \<open>string\<close>: a list of characters, each read as one
  code point in the range U+0000 to U+00FF. The character classes below are Python's own
  on that range (\<open>str.isspace\<close>, the \<open>\s\<close> and \<open>\w\<close> of \<open>re\<close> on \<open>str\<close> patterns,
  \<open>str.splitlines\<close>, \<open>str.lower\<close>).
\<close>

definition is_space :: "char \<Rightarrow> bool" where
  "is_space c =
     (let n = (of_char c :: nat)
      in (9 \<le> n \<and> n \<le> 13) \<or> (28 \<le> n \<and> n \<le> 32) \<or> n = 133 \<or> n = 160)"

definition is_linebreak :: "char \<Rightarrow> bool" where
  "is_linebreak c =
     (let n = (of_char c :: nat)
      in (10 \<le> n \<and> n \<le> 13) \<or> (28 \<le> n \<and> n \<le> 30) \<or> n = 133)"

definition is_word :: "char \<Rightarrow> bool" where
  "is_word c =
     (let n = (of_char c :: nat)
      in (48 \<le> n \<and> n \<le> 57) \<or> (65 \<le> n \<and> n \<le> 90) \<or> n = 95 \<or> (97 \<le> n \<and> n \<le> 122)
         \<or> n = 170 \<or> n = 178 \<or> n = 179 \<or> n = 181 \<or> n = 185 \<or> n = 186
         \<or> (188 \<le> n \<and> n \<le> 190) \<or> (192 \<le> n \<and> n \<le> 214) \<or> (216 \<le> n \<and> n \<le> 246)
         \<or> 248 \<le> n)"

definition lower_char :: "char \<Rightarrow> char" where
  "lower_char c =
     (let n = (of_char c :: nat)
      in if (65 \<le> n \<and> n \<le> 90) \<or> (192 \<le> n \<and> n \<le> 214) \<or> (216 \<le> n \<and> n \<le> 222)
         then char_of (n + 32) else c)"

definition lower :: "string \<Rightarrow> string" where
  "lower s = map lower_char s"

text \<open>\<open>s.strip()\<close>\<close>

definition strip :: "string \<Rightarrow> string" where
  "strip s = rev (dropWhile is_space (rev (dropWhile is_space s)))"

text \<open>\<open>sep.join(xs)\<close>\<close>

fun join :: "string \<Rightarrow> string list \<Rightarrow> string" where
  "join sep [] = []"
| "join sep [x] = x"
| "join sep (x # y # ys) = x @ sep @ join sep (y # ys)"

text \<open>
  \<open>s.split()\<close> without arguments: the maximal runs of non-whitespace characters. The first
  argument is the run read so far, reversed.
\<close>

fun split_ws :: "string \<Rightarrow> string \<Rightarrow> string list" where
  "split_ws cur [] = (if cur = [] then [] else [rev cur])"
| "split_ws cur (c # cs) =
     (if is_space c then (if cur = [] then split_ws [] cs else rev cur # split_ws [] cs)
      else split_ws (c # cur) cs)"

definition py_split :: "string \<Rightarrow> string list" where
  "py_split s = split_ws [] s"

text \<open>
  \<open>s.splitlines()\<close>: lines end at a line-break character, \<open>\r\n\<close> counting as one break; a
  final line break opens no further line. The first argument is the line read so far,
  reversed.
\<close>

fun splitlines_from :: "string \<Rightarrow> string \<Rightarrow> string list" where
  "splitlines_from cur [] = (if cur = [] then [] else [rev cur])"
| "splitlines_from cur [c] =
     (if is_linebreak c then [rev cur] else [rev (c # cur)])"
| "splitlines_from cur (c # d # cs) =
     (if c = CHR 0x0D \<and> d = CHR 0x0A then rev cur # splitlines_from [] cs
      else if is_linebreak c then rev cur # splitlines_from [] (d # cs)
      else splitlines_from (c # cur) (d # cs))"

definition splitlines :: "string \<Rightarrow> string list" where
  "splitlines s = splitlines_from [] s"

text \<open>
  Python's \<open>xs[:n]\<close> for an integer \<open>n\<close>: a negative \<open>n\<close> counts from the end.
\<close>

definition slice_to :: "'a list \<Rightarrow> int \<Rightarrow> 'a list" where
  "slice_to xs n = (if 0 \<le> n then take (nat n) xs else take (length xs - nat (- n)) xs)"

datatype error = ValueError | RuntimeError | IndexError | OSError

text \<open>
  \<open>xs[i]\<close> for an integer \<open>i\<close>: positions \<open>0 .. len(xs) - 1\<close> count from the front,
  \<open>-len(xs) .. -1\<close> from the back, and anything else raises \<open>IndexError\<close>.
\<close>

definition item_at :: "'a list \<Rightarrow> int \<Rightarrow> error + 'a" where
  "item_at xs i =
     (if 0 \<le> i \<and> i < int (length xs) then Inr (xs ! nat i)
      else if i < 0 \<and> - int (length xs) \<le> i then Inr (xs ! nat (int (length xs) + i))
      else Inl IndexError)"

text \<open>
  \<open>xs.sort(key=f, reverse=True)\<close>: descending by key. The sort is stable also with
  \<open>reverse=True\<close>: the list is reversed, sorted ascending by the stable sort, and
  reversed again, so elements of equal key keep their original order.
\<close>

definition sort_desc :: "('a \<Rightarrow> 'k::linorder) \<Rightarrow> 'a list \<Rightarrow> 'a list" where
  "sort_desc f xs = rev (sort_key f (rev xs))"

section \<open>Configuration\<close>

text \<open>
  \<open>config/config.py\<close>: the values are read from the environment, so they are parameters
  here.
\<close>

record config =
  CHUNK_SIZE :: int
  CHUNK_OVERLAP :: int
  MAX_RETRIEVALS :: int
  VECTOR_STORE_PATH :: string
  METADATA_PATH :: string

text \<open>\<open>x or d\<close> for an optional integer \<open>x\<close>: \<open>None\<close> and \<open>0\<close> are both falsy.\<close>

definition or_default :: "int option \<Rightarrow> int \<Rightarrow> int" where
  "or_default x d = (case x of None \<Rightarrow> d | Some v \<Rightarrow> if v = 0 then d else v)"

section \<open>Text normalizer: repeated headers and footers\<close>

text \<open>
  \<open>candidate_counts\<close> is a dictionary from line to count; it is an association list in
  insertion order. \<open>bump\<close> is \<open>candidate_counts[ln] = candidate_counts.get(ln, 0) + 1\<close>.
\<close>

fun bump :: "string \<Rightarrow> (string \<times> nat) list \<Rightarrow> (string \<times> nat) list" where
  "bump line [] = [(line, 1)]"
| "bump line ((k, c) # rest) = (if k = line then (k, c + 1) # rest else (k, c) # bump line rest)"

text \<open>\<open>[ln.strip() for ln in page.splitlines() if ln.strip()]\<close>\<close>

definition page_lines_of :: "string \<Rightarrow> string list" where
  "page_lines_of page = map strip (filter (\<lambda>line. strip line \<noteq> []) (splitlines page))"

text \<open>The loop \<open>for ln in lines\<close> that counts the short lines.\<close>

fun count_lines :: "string list \<Rightarrow> (string \<times> nat) list \<Rightarrow> (string \<times> nat) list" where
  "count_lines [] candidate_counts = candidate_counts"
| "count_lines (line # lines) candidate_counts =
     (if 3 \<le> length line \<and> length line \<le> 120
      then count_lines lines (bump line candidate_counts)
      else count_lines lines candidate_counts)"

text \<open>The loop \<open>for page in pages\<close>; it returns \<open>candidate_counts\<close> and \<open>page_lines\<close>.\<close>

fun gather ::
  "string list \<Rightarrow> (string \<times> nat) list \<Rightarrow> string list list
     \<Rightarrow> (string \<times> nat) list \<times> string list list" where
  "gather [] candidate_counts page_lines = (candidate_counts, page_lines)"
| "gather (page # pages) candidate_counts page_lines =
     (let lines = page_lines_of page
      in gather pages (count_lines lines candidate_counts) (page_lines @ [lines]))"

text \<open>
  \<open>pattern.search(ln)\<close> for the pattern that joins the escaped repeated lines with \<open>|\<close>:
  it finds a match exactly when one of the repeated lines occurs in \<open>ln\<close> as a contiguous
  substring. The order of the alternatives does not matter for that.
\<close>

definition pattern_search :: "string list \<Rightarrow> string \<Rightarrow> bool" where
  "pattern_search repeated line = list_ex (\<lambda>r. sublist r line) repeated"

definition clean_page :: "string list \<Rightarrow> string list \<Rightarrow> string" where
  "clean_page repeated lines =
     (if lines = [] then []
      else if repeated \<noteq> []
      then join [CHR 0x0A] (filter (\<lambda>line. \<not> pattern_search repeated line) lines)
      else join [CHR 0x0A] lines)"

definition remove_repeated_headers :: "string list \<Rightarrow> string" where
  "remove_repeated_headers pages =
     (case gather pages [] [] of
        (candidate_counts, page_lines) \<Rightarrow>
          let repeated = map fst (filter (\<lambda>(line, c). c \<ge> max 2 (length pages div 6)) candidate_counts)
          in join [CHR 0x0A, CHR 0x0A] (map (clean_page repeated) page_lines))"

text \<open>
  \<open>candidate_counts.get(k, 0)\<close>, and the lines that end up in \<open>repeated\<close>: those of 3 to
  120 characters whose occurrences, counted over all lines of all pages, number at least
  \<open>max(2, len(pages) // 6)\<close>.
\<close>

definition get_count :: "(string \<times> nat) list \<Rightarrow> string \<Rightarrow> nat" where
  "get_count candidate_counts k = (case map_of candidate_counts k of None \<Rightarrow> 0 | Some c \<Rightarrow> c)"

definition is_repeated :: "string list \<Rightarrow> string \<Rightarrow> bool" where
  "is_repeated pages r =
     (3 \<le> length r \<and> length r \<le> 120 \<and>
      max 2 (length pages div 6) \<le> count_list (concat (map page_lines_of pages)) r)"

text \<open>
  The header removal as the specification words it: a trimmed non-empty line of 3 to 120
  characters that occurs on at least \<open>max(2, page_count // 6)\<close> distinct pages is removed
  from every page, and every other line is kept.
\<close>

definition spec_is_header :: "string list \<Rightarrow> string \<Rightarrow> bool" where
  "spec_is_header pages line =
     (3 \<le> length line \<and> length line \<le> 120 \<and>
      max 2 (length pages div 6) \<le> length (filter (\<lambda>page. line \<in> set (page_lines_of page)) pages))"

definition spec_remove_headers :: "string list \<Rightarrow> string" where
  "spec_remove_headers pages =
     join [CHR 0x0A, CHR 0x0A]
       (map (\<lambda>page. join [CHR 0x0A] (filter (\<lambda>line. \<not> spec_is_header pages line) (page_lines_of page)))
          pages)"

section \<open>Sentence segmenter\<close>

definition is_terminal :: "char \<Rightarrow> bool" where
  "is_terminal c = (c = CHR ''.'' \<or> c = CHR ''!'' \<or> c = CHR ''?'')"

text \<open>The class \<open>[A-Z0-9"']\<close> of the lookahead.\<close>

definition is_sentence_start :: "char \<Rightarrow> bool" where
  "is_sentence_start c =
     (let n = (of_char c :: nat)
      in (65 \<le> n \<and> n \<le> 90) \<or> (48 \<le> n \<and> n \<le> 57) \<or> n = 34 \<or> n = 39)"

text \<open>\<open>re.sub(r'\s+', ' ', text)\<close>: every maximal whitespace run becomes one space.\<close>

function re_sub_ws :: "string \<Rightarrow> string" where
  "re_sub_ws [] = []"
| "re_sub_ws (c # cs) =
     (if is_space c then CHR '' '' # re_sub_ws (dropWhile is_space cs)
      else c # re_sub_ws cs)"
  by pat_completeness auto
termination
  by (relation "measure length") (auto simp: less_Suc_eq_le length_dropWhile_le)

text \<open>
  The lookahead of a split pattern, as a predicate on the next character (\<open>None\<close> at the end
  of the text): \<open>(?=[A-Z0-9"'])\<close> for \<open>_SENTENCE_SPLIT_RE\<close>, nothing for the fallback
  pattern.
\<close>

definition next_char :: "string \<Rightarrow> char option" where
  "next_char s = (case s of [] \<Rightarrow> None | c # _ \<Rightarrow> Some c)"

definition primary_ahead :: "char option \<Rightarrow> bool" where
  "primary_ahead x = (case x of None \<Rightarrow> False | Some c \<Rightarrow> is_sentence_start c)"

definition fallback_ahead :: "char option \<Rightarrow> bool" where
  "fallback_ahead x = True"

text \<open>
  \<open>re.split\<close> on a pattern \<open>(?<=[.!?])\s+\<close> followed by the lookahead \<open>la\<close>. The flag says
  whether the character before the current position is one of \<open>. ! ?\<close> (the lookbehind).
  A match starts at a whitespace character after such a mark; the greedy \<open>\s+\<close> takes the
  whole whitespace run, and giving characters back cannot help the lookahead, since the
  character after a shorter run is whitespace. The matched run is dropped and the text
  before it closes a part.
\<close>

function re_split :: "(char option \<Rightarrow> bool) \<Rightarrow> bool \<Rightarrow> string \<Rightarrow> string list" where
  "re_split la b [] = [[]]"
| "re_split la b (c # cs) =
     (if b \<and> is_space c \<and> la (next_char (dropWhile is_space cs))
      then [] # re_split la False (dropWhile is_space cs)
      else (case re_split la (is_terminal c) cs of
              [] \<Rightarrow> [[c]]
            | p # ps \<Rightarrow> (c # p) # ps))"
  by pat_completeness auto
termination
  by (relation "measure (\<lambda>(la, b, s). length s)")
     (auto simp: less_Suc_eq_le length_dropWhile_le)

definition split_into_sentences :: "string \<Rightarrow> string list" where
  "split_into_sentences text =
     (if text = [] then []
      else
        let t = strip (re_sub_ws text);
            parts = re_split primary_ahead False t;
            parts = (if length parts = 1 then re_split fallback_ahead False t else parts)
        in map strip (filter (\<lambda>p. strip p \<noteq> []) parts))"

text \<open>
  The lookahead as the specification words it, "an uppercase letter, digit, or quote
  character": the upper-case letters of the character range (\<open>str.isupper\<close>: \<open>A\<close> to \<open>Z\<close>
  and the accented capitals U+00C0 to U+00DE without U+00D7), the digits \<open>0\<close> to \<open>9\<close>, and
  the double and the single quote.
\<close>

definition is_upper :: "char \<Rightarrow> bool" where
  "is_upper c =
     (let n = (of_char c :: nat)
      in (65 \<le> n \<and> n \<le> 90) \<or> (192 \<le> n \<and> n \<le> 214) \<or> (216 \<le> n \<and> n \<le> 222))"

definition spec_ahead :: "char option \<Rightarrow> bool" where
  "spec_ahead x =
     (case x of
        None \<Rightarrow> False
      | Some c \<Rightarrow>
          is_upper c \<or> c \<in> set ''0123456789'' \<or> c = CHR 0x22 \<or> c = CHR 0x27)"

text \<open>
  The segmentation as the specification words it. A boundary lies between \<open>u\<close> and \<open>v\<close>
  in the text \<open>u @ v\<close> when \<open>u\<close> ends with a sentence-terminal mark and \<open>v\<close> starts with
  whitespace that is followed by what the lookahead \<open>la\<close> of the rule asks for (a character of its
  class for the first rule; anything, or the end of the text, for the fallback rule). A text
  without a boundary is one part; otherwise the first part ends at the leftmost boundary,
  the whitespace there is dropped, and the rest is split in the same way.
\<close>

definition boundary :: "(char option \<Rightarrow> bool) \<Rightarrow> string \<Rightarrow> string \<Rightarrow> bool" where
  "boundary la u v =
     (u \<noteq> [] \<and> is_terminal (last u) \<and> v \<noteq> [] \<and> is_space (hd v) \<and>
      la (next_char (dropWhile is_space v)))"

inductive split_spec :: "(char option \<Rightarrow> bool) \<Rightarrow> string \<Rightarrow> string list \<Rightarrow> bool"
  for la :: "char option \<Rightarrow> bool" where
  whole: "(\<And>u v. t = u @ v \<Longrightarrow> \<not> boundary la u v) \<Longrightarrow> split_spec la t [t]"
| cut: "boundary la u v \<Longrightarrow>
        (\<And>u' v'. u = u' @ v' \<Longrightarrow> v' \<noteq> [] \<Longrightarrow> \<not> boundary la u' (v' @ v)) \<Longrightarrow>
        split_spec la (dropWhile is_space v) ps \<Longrightarrow>
        split_spec la (u @ v) (u # ps)"

text \<open>
  The same boundary seen from inside the scan, where the flag stands for the character
  before the text.
\<close>

definition boundary_after :: "(char option \<Rightarrow> bool) \<Rightarrow> bool \<Rightarrow> string \<Rightarrow> string \<Rightarrow> bool" where
  "boundary_after la b u v =
     ((if u = [] then b else is_terminal (last u)) \<and> v \<noteq> [] \<and> is_space (hd v) \<and>
      la (next_char (dropWhile is_space v)))"

section \<open>Chunker\<close>

text \<open>
  \<open>TOKEN_ENCODER\<close> is \<open>None\<close> when no tokenizer could be loaded; otherwise its \<open>encode\<close>
  gives a token list, of which only the length is used, or raises (\<open>None\<close> here).
\<close>

type_synonym encoder = "(string \<Rightarrow> nat option) option"

definition count_tokens :: "encoder \<Rightarrow> string \<Rightarrow> nat" where
  "count_tokens enc text =
     (case enc of
        None \<Rightarrow> length (py_split text)
      | Some encode \<Rightarrow>
          (case encode text of Some n \<Rightarrow> n | None \<Rightarrow> length (py_split text)))"

text \<open>
  The inner loop \<open>while j < N and token_acc < chunk_size\<close>; it returns \<open>j\<close>, \<open>token_acc\<close>
  and \<open>chunk_sentences\<close>.
\<close>

function accumulate ::
  "string list \<Rightarrow> nat list \<Rightarrow> int \<Rightarrow> nat \<Rightarrow> int \<Rightarrow> string list \<Rightarrow> nat \<times> int \<times> string list" where
  "accumulate sentences sent_tokens chunk_size j token_acc chunk_sentences =
     (if j < length sentences \<and> token_acc < chunk_size
      then accumulate sentences sent_tokens chunk_size (j + 1)
             (token_acc + int (sent_tokens ! j)) (chunk_sentences @ [sentences ! j])
      else (j, token_acc, chunk_sentences))"
  by pat_completeness auto
termination
  by (relation "measure (\<lambda>(sentences, sent_tokens, chunk_size, j, acc, cur). length sentences - j)")
     auto

declare accumulate.simps [simp del]

text \<open>
  The walk back \<open>while (j - 1 - k) >= 0 and ov_acc < overlap\<close>, with its \<open>break\<close> once
  \<open>j - k <= i\<close>; it returns \<open>k\<close>. On natural numbers \<open>(j - 1 - k) >= 0\<close> is \<open>k < j\<close>, and
  \<open>k \<le> j\<close> holds wherever \<open>j - k\<close> is read.
\<close>

function walk_back :: "nat list \<Rightarrow> int \<Rightarrow> nat \<Rightarrow> nat \<Rightarrow> nat \<Rightarrow> int \<Rightarrow> nat" where
  "walk_back sent_tokens overlap i j k ov_acc =
     (if k < j \<and> ov_acc < overlap
      then (let ov_acc' = ov_acc + int (sent_tokens ! (j - 1 - k)); k' = k + 1
            in if j - k' \<le> i then k' else walk_back sent_tokens overlap i j k' ov_acc')
      else k)"
  by pat_completeness auto
termination
  by (relation "measure (\<lambda>(sent_tokens, overlap, i, j, k, ov_acc). j - k)") auto

declare walk_back.simps [simp del]

definition next_start :: "nat list \<Rightarrow> int \<Rightarrow> nat \<Rightarrow> nat \<Rightarrow> nat" where
  "next_start sent_tokens overlap i j =
     (if overlap \<le> 0 then j
      else max (i + 1) (j - walk_back sent_tokens overlap i j 0 0))"

text \<open>
  The outer loop \<open>while i < N\<close>. Nothing in the loop itself bounds its running time, so it
  is a partial function: \<open>None\<close> stands for a loop that never returns. Besides \<open>chunks\<close>
  the model records, for every iteration, the pair \<open>(i, j)\<close> of the sentence range the
  iteration read; the record is never read by the loop.
\<close>

partial_function (option) chunk_loop ::
  "string list \<Rightarrow> nat list \<Rightarrow> int \<Rightarrow> int \<Rightarrow> nat \<Rightarrow> string list \<Rightarrow> (nat \<times> nat) list
     \<Rightarrow> (string list \<times> (nat \<times> nat) list) option" where
  "chunk_loop sentences sent_tokens chunk_size overlap i chunks spans =
     (if i < length sentences
      then
        (case accumulate sentences sent_tokens chunk_size i 0 [] of
           (j, token_acc, chunk_sentences) \<Rightarrow>
             let chunk_text = strip (join '' '' chunk_sentences);
                 chunks' = (if chunk_text \<noteq> [] then chunks @ [chunk_text] else chunks);
                 spans' = spans @ [(i, j)]
             in if j \<ge> length sentences then Some (chunks', spans')
                else chunk_loop sentences sent_tokens chunk_size overlap
                       (next_start sent_tokens overlap i j) chunks' spans')
      else Some (chunks, spans))"

declare chunk_loop.simps [code]

definition chunk_text ::
  "config \<Rightarrow> encoder \<Rightarrow> string \<Rightarrow> int option \<Rightarrow> int option \<Rightarrow> (error + string list) option" where
  "chunk_text cfg enc text chunk_size overlap =
     (let chunk_size = or_default chunk_size (CHUNK_SIZE cfg);
          overlap = or_default overlap (CHUNK_OVERLAP cfg)
      in if chunk_size \<le> 0 then Some (Inl ValueError)
         else
           let sentences = split_into_sentences text
           in if sentences = [] then Some (Inr [])
              else map_option (\<lambda>r. Inr (fst r))
                     (chunk_loop sentences (map (count_tokens enc) sentences)
                        chunk_size overlap 0 [] []))"

section \<open>Hybrid retriever\<close>

text \<open>
  A metadata record \<open>{"doc_id", "chunk_id", "text"}\<close> and a retrieval result, which adds
  the score. Scores are real numbers here; the rounding of floating point is not modelled.
\<close>

record chunk_meta =
  doc_id :: string
  chunk_id :: nat
  "text" :: string

record retrieval_result = chunk_meta +
  score :: real

definition make_result :: "real \<Rightarrow> chunk_meta \<Rightarrow> retrieval_result" where
  "make_result s m = \<lparr>doc_id = doc_id m, chunk_id = chunk_id m, text = text m, score = s\<rparr>"

text \<open>
  \<open>re.findall(r"\w+", s)\<close>: the maximal runs of word characters, left to right. The first
  argument is the run read so far, reversed.
\<close>

fun word_runs :: "string \<Rightarrow> string \<Rightarrow> string list" where
  "word_runs cur [] = (if cur = [] then [] else [rev cur])"
| "word_runs cur (c # cs) =
     (if is_word c then word_runs (c # cur) cs
      else if cur = [] then word_runs [] cs
      else rev cur # word_runs [] cs)"

definition findall_words :: "string \<Rightarrow> string list" where
  "findall_words s = word_runs [] s"

definition keyword_score :: "string \<Rightarrow> string \<Rightarrow> nat" where
  "keyword_score query txt =
     (let q_words = set (findall_words (lower query));
          t_words = set (findall_words (lower txt))
      in card (q_words \<inter> t_words))"

text \<open>
  The loop over \<open>zip(D[0], I[0])\<close>, the scores and positions that the vector search
  returned. The read \<open>metadata[idx]\<close> is the checked one, so an access out of range would
  show as \<open>IndexError\<close>.
\<close>

fun semantic_loop ::
  "chunk_meta list \<Rightarrow> (real \<times> int) list \<Rightarrow> retrieval_result list
     \<Rightarrow> error + retrieval_result list" where
  "semantic_loop metadata [] results = Inr results"
| "semantic_loop metadata ((s, idx) # rest) results =
     (if idx < 0 \<or> idx \<ge> int (length metadata) then semantic_loop metadata rest results
      else (case item_at metadata idx of
              Inl e \<Rightarrow> Inl e
            | Inr m \<Rightarrow> semantic_loop metadata rest (results @ [make_result s m])))"

definition top_score :: "retrieval_result list \<Rightarrow> real" where
  "top_score results = (case results of [] \<Rightarrow> 0 | r # _ \<Rightarrow> score r)"

text \<open>The loop \<open>for m in metadata\<close> that collects \<open>lex_scores\<close>.\<close>

fun lex_loop :: "string \<Rightarrow> chunk_meta list \<Rightarrow> (nat \<times> chunk_meta) list \<Rightarrow> (nat \<times> chunk_meta) list" where
  "lex_loop query [] lex_scores = lex_scores"
| "lex_loop query (m # ms) lex_scores =
     (let sc = keyword_score query (text m)
      in if sc > 0 then lex_loop query ms (lex_scores @ [(sc, m)])
         else lex_loop query ms lex_scores)"

text \<open>
  The loop \<open>for sc, m in lex_scores[:lexical_k]\<close> with its \<open>continue\<close> for a key that is
  already present and its \<open>break\<close> once \<open>added >= lexical_k\<close>.
\<close>

fun merge_loop ::
  "(string \<times> nat) set \<Rightarrow> int \<Rightarrow> (nat \<times> chunk_meta) list \<Rightarrow> retrieval_result list \<Rightarrow> int
     \<Rightarrow> retrieval_result list" where
  "merge_loop existing_keys lexical_k [] results added = results"
| "merge_loop existing_keys lexical_k ((sc, m) # rest) results added =
     (if (doc_id m, chunk_id m) \<in> existing_keys
      then merge_loop existing_keys lexical_k rest results added
      else
        let results' = results @ [make_result (real sc / 100) m];
            added' = added + 1
        in if added' \<ge> lexical_k then results'
           else merge_loop existing_keys lexical_k rest results' added')"

text \<open>The body of \<open>if top_score < sim_threshold\<close>.\<close>

definition lexical_fallback ::
  "string \<Rightarrow> chunk_meta list \<Rightarrow> int \<Rightarrow> retrieval_result list \<Rightarrow> retrieval_result list" where
  "lexical_fallback query metadata lexical_k results =
     (let lex_scores = sort_desc fst (lex_loop query metadata []);
          existing_keys = set (map (\<lambda>r. (doc_id r, chunk_id r)) results)
      in merge_loop existing_keys lexical_k (slice_to lex_scores lexical_k) results 0)"

text \<open>
  \<open>retrieve\<close>. The embedding of the query and the search of the vector index are outside
  the repository: \<open>hits\<close> is \<open>zip(D[0], I[0])\<close>, what \<open>index.search(q_arr, k)\<close>
  returned. The defaults of \<open>lexical_k\<close> and \<open>sim_threshold\<close> are 10 and 0.18.
\<close>

definition default_lexical_k :: int where
  "default_lexical_k = 10"

definition default_sim_threshold :: real where
  "default_sim_threshold = 0.18"

definition retrieve ::
  "config \<Rightarrow> (real \<times> int) list \<Rightarrow> string \<Rightarrow> chunk_meta list \<Rightarrow> int option \<Rightarrow> int \<Rightarrow> real
     \<Rightarrow> error + retrieval_result list" where
  "retrieve cfg hits query metadata k lexical_k sim_threshold =
     (let k = or_default k (MAX_RETRIEVALS cfg)
      in case semantic_loop metadata hits [] of
           Inl e \<Rightarrow> Inl e
         | Inr results \<Rightarrow>
             let results = (if top_score results < sim_threshold
                            then lexical_fallback query metadata lexical_k results
                            else results);
                 results = sort_desc score results
             in Inr (slice_to results (max k (int (length results)))))"

text \<open>
  The retriever as the specification words it: the semantic results are the hits whose
  position lies in \<open>[0, len(metadata))\<close>; the lexical matches are the records of positive
  lexical score, ranked descending, cut to \<open>lexical_fallback_k\<close>; those not yet present by
  \<open>(doc_id, chunk_id)\<close> are added with the score \<open>lexical_score / 100\<close>; the result is
  ordered by descending score.
\<close>

definition spec_semantic :: "chunk_meta list \<Rightarrow> (real \<times> int) list \<Rightarrow> retrieval_result list" where
  "spec_semantic metadata hits =
     map (\<lambda>h. make_result (fst h) (metadata ! nat (snd h)))
       (filter (\<lambda>h. 0 \<le> snd h \<and> snd h < int (length metadata)) hits)"

definition spec_ranked :: "string \<Rightarrow> chunk_meta list \<Rightarrow> (nat \<times> chunk_meta) list" where
  "spec_ranked query metadata =
     sort_desc fst
       (map (\<lambda>m. (keyword_score query (text m), m))
          (filter (\<lambda>m. 0 < keyword_score query (text m)) metadata))"

definition spec_merged ::
  "string \<Rightarrow> chunk_meta list \<Rightarrow> int \<Rightarrow> real \<Rightarrow> retrieval_result list \<Rightarrow> retrieval_result list" where
  "spec_merged query metadata lexical_k sim_threshold sem =
     (if top_score sem < sim_threshold
      then sem @
        map (\<lambda>p. make_result (real (fst p) / 100) (snd p))
          (filter (\<lambda>p. (doc_id (snd p), chunk_id (snd p)) \<notin> set (map (\<lambda>r. (doc_id r, chunk_id r)) sem))
             (take (nat lexical_k) (spec_ranked query metadata)))
      else sem)"

definition spec_retrieve ::
  "(real \<times> int) list \<Rightarrow> string \<Rightarrow> chunk_meta list \<Rightarrow> int \<Rightarrow> real \<Rightarrow> retrieval_result list" where
  "spec_retrieve hits query metadata lexical_k sim_threshold =
     sort_desc score
       (spec_merged query metadata lexical_k sim_threshold (spec_semantic metadata hits))"

section \<open>Embedding client and index builder\<close>



text \<open>The statistics and the debug record that \<open>index_documents\<close> collects.\<close>

record ingest_stats =
  files :: "(string \<times> nat \<times> nat) list"
  total_sentences :: nat
  total_words :: nat
  total_chunks :: nat

record debug_info =
  stats :: ingest_stats
  sample_first_chunk :: string
  sample_last_chunk :: string
  debug_total_chunks :: nat











text \<open>
  Lines 284 to 297: the files. Which file a path string names is decided outside the
  program (two strings may name one file), and so is whether a directory can be made or a
  file opened for writing; these are the parameters \<open>file_of\<close>, \<open>can_makedirs\<close> and
  \<open>can_write\<close>. The file system is a map from files to contents.
\<close>

datatype file_content =
  IndexFile "real list list"
| MetadataFile "chunk_meta list"
| DebugFile debug_info

record 'f io_env =
  file_of :: "string \<Rightarrow> 'f"
  can_makedirs :: bool
  can_write :: "string \<Rightarrow> bool"

text \<open>
  \<open>Path(p).parent / "ingest_debug.json"\<close>, as a string, for POSIX paths: \<open>pathlib\<close> reads
  a path as a root (\<open>/\<close>, or \<open>//\<close> for exactly two leading slashes) and the components
  between slashes, without the empty ones and the \<open>.\<close> ones; the parent drops the last
  component.
\<close>

fun split_on :: "char \<Rightarrow> string \<Rightarrow> string \<Rightarrow> string list" where
  "split_on sep cur [] = [rev cur]"
| "split_on sep cur (c # cs) =
     (if c = sep then rev cur # split_on sep [] cs else split_on sep (c # cur) cs)"

definition path_parts :: "string \<Rightarrow> string list" where
  "path_parts p = filter (\<lambda>c. c \<noteq> [] \<and> c \<noteq> ''.'') (split_on (CHR ''/'') [] p)"

definition path_root :: "string \<Rightarrow> string" where
  "path_root p =
     (if take 2 p = ''//'' \<and> take 3 p \<noteq> ''///'' then ''//''
      else if take 1 p = ''/'' then ''/''
      else [])"

definition debug_path :: "string \<Rightarrow> string" where
  "debug_path p = path_root p @ join ''/'' (butlast (path_parts p) @ [''ingest_debug.json''])"

text \<open>
  The writes, in the order of the code: \<open>os.makedirs\<close>, \<open>faiss.write_index\<close> to
  \<open>VECTOR_STORE_PATH\<close>, the dump of the metadata to \<open>METADATA_PATH\<close> and, with \<open>debug\<close>, the
  debug file beside the index. The function returns the error that ended the writes, if
  one did, and the states of the file system after each write that was made, in order. A
  write that can be opened is taken as one step, though \<open>open(path, "w")\<close> empties the
  file before the dump fills it.
\<close>

definition write_outputs ::
  "'f io_env \<Rightarrow> config \<Rightarrow> bool \<Rightarrow> real list list \<Rightarrow> chunk_meta list \<Rightarrow> debug_info
     \<Rightarrow> ('f \<Rightarrow> file_content option) \<Rightarrow> error option \<times> ('f \<Rightarrow> file_content option) list" where
  "write_outputs env cfg debug index metadata info fs =
     (if \<not> can_makedirs env then (Some OSError, [])
      else if \<not> can_write env (VECTOR_STORE_PATH cfg) then (Some RuntimeError, [])
      else
        let fs1 = fs(file_of env (VECTOR_STORE_PATH cfg) \<mapsto> IndexFile index)
        in if \<not> can_write env (METADATA_PATH cfg) then (Some OSError, [fs1])
           else
             let fs2 = fs1(file_of env (METADATA_PATH cfg) \<mapsto> MetadataFile metadata)
             in if \<not> debug then (None, [fs1, fs2])
                else if \<not> can_write env (debug_path (VECTOR_STORE_PATH cfg))
                then (Some OSError, [fs1, fs2])
                else (None,
                      [fs1, fs2,
                       fs2(file_of env (debug_path (VECTOR_STORE_PATH cfg)) \<mapsto> DebugFile info)]))"


text \<open>
  An environment for examples: every path string names its own file, and every directory
  and file can be written; and one in which the metadata file cannot be opened.
\<close>

definition plain_env :: "string io_env" where
  "plain_env = \<lparr>file_of = (\<lambda>p. p), can_makedirs = True, can_write = (\<lambda>p. True)\<rparr>"



text \<open>
  The sentences \<open>sentences[a:b]\<close> of a recorded range, and the shape of the record of a
  run that starts at sentence \<open>i\<close> when the previous range ended at \<open>e\<close>: every range
  starts where the loop stood, holds at least one sentence, ends no earlier than the one
  before it, and the next one starts after this one's start and no later than its end; the
  last range ends at the last sentence.
\<close>

definition sentence_range :: "string list \<Rightarrow> nat \<times> nat \<Rightarrow> string list" where
  "sentence_range S ab = take (snd ab - fst ab) (drop (fst ab) S)"

fun chain :: "nat \<Rightarrow> nat \<Rightarrow> nat \<Rightarrow> (nat \<times> nat) list \<Rightarrow> bool" where
  "chain N i e [] = False"
| "chain N i e ((a, b) # rest) =
     (a = i \<and> a < b \<and> e \<le> b \<and> b \<le> N \<and>
      (case rest of
         [] \<Rightarrow> b = N
       | (a', b') # _ \<Rightarrow> b < N \<and> a < a' \<and> a' \<le> b \<and> chain N a' b rest))"

text \<open>A string that is not empty and neither starts nor ends with whitespace.\<close>

definition trimmed :: "string \<Rightarrow> bool" where
  "trimmed s = (s \<noteq> [] \<and> \<not> is_space (hd s) \<and> \<not> is_space (last s))"

section \<open>Properties\<close>

subsection \<open>strip and join\<close>

lemma dropWhile_last: "dropWhile P xs \<noteq> [] \<Longrightarrow> last (dropWhile P xs) = last xs"
  by (induction xs) (auto split: if_splits)

lemma strip_trimmed: "strip s \<noteq> [] \<Longrightarrow> trimmed (strip s)"
proof -
  assume ne: "strip s \<noteq> []"
  let ?u = "dropWhile is_space s"
  let ?w = "dropWhile is_space (rev ?u)"
  have w: "?w \<noteq> []" using ne by (simp add: strip_def)
  have u: "?u \<noteq> []"
  proof
    assume a: "?u = []"
    have "?w = []" unfolding a by simp
    with w show False by (simp only:)
  qed
  have "\<not> is_space (hd ?u)" using u by (rule hd_dropWhile)
  moreover have "last ?w = last (rev ?u)" using w by (rule dropWhile_last)
  ultimately have "\<not> is_space (last ?w)" using u by (simp add: last_rev)
  moreover have "\<not> is_space (hd ?w)" using w by (rule hd_dropWhile)
  ultimately show ?thesis using w by (simp add: strip_def trimmed_def hd_rev last_rev)
qed

lemma trimmed_strip: "trimmed s \<Longrightarrow> strip s = s"
proof -
  assume t: "trimmed s"
  then have "dropWhile is_space s = s" by (cases s) (auto simp: trimmed_def)
  moreover have "dropWhile is_space (rev s) = rev s"
    using t by (cases "rev s") (auto simp: trimmed_def last_rev hd_rev dest: arg_cong [where f = last])
  ultimately show ?thesis by (simp add: strip_def)
qed

lemma join_trimmed:
  "xs \<noteq> [] \<Longrightarrow> \<forall>x\<in>set xs. trimmed x \<Longrightarrow> trimmed (join sep xs)"
proof (induction sep xs rule: join.induct)
  case (1 sep)
  then show ?case by simp
next
  case (2 sep x)
  then show ?case by simp
next
  case (3 sep x y ys)
  then have "trimmed (join sep (y # ys))" "trimmed x" by auto
  then show ?case by (auto simp: trimmed_def)
qed

lemma split_into_sentences_trimmed: "\<forall>s\<in>set (split_into_sentences doc). trimmed s"
  by (auto simp: split_into_sentences_def Let_def strip_trimmed)

subsection \<open>Header removal\<close>

lemma bump_get: "get_count (bump l cs) k = (if k = l then get_count cs l + 1 else get_count cs k)"
  by (induction l cs rule: bump.induct) (auto simp: get_count_def)

lemma bump_keys: "fst ` set (bump l cs) = insert l (fst ` set cs)"
  by (induction l cs rule: bump.induct) auto

lemma bump_distinct: "distinct (map fst cs) \<Longrightarrow> distinct (map fst (bump l cs))"
proof (induction l cs rule: bump.induct)
  case (1 l)
  then show ?case by simp
next
  case (2 l k c rest)
  then show ?case using bump_keys [of l rest] by (auto simp: image_iff)
qed

lemma bump_positive: "\<forall>p\<in>set cs. 0 < snd p \<Longrightarrow> \<forall>p\<in>set (bump l cs). 0 < snd p"
  by (induction l cs rule: bump.induct) auto

lemma count_lines_inv:
  "distinct (map fst cs) \<Longrightarrow> \<forall>p\<in>set cs. 0 < snd p \<Longrightarrow>
   distinct (map fst (count_lines ls cs)) \<and> (\<forall>p\<in>set (count_lines ls cs). 0 < snd p)"
proof (induction ls arbitrary: cs)
  case Nil
  then show ?case by simp
next
  case (Cons l ls)
  show ?case
  proof (cases "3 \<le> length l \<and> length l \<le> 120")
    case True
    from Cons.IH [OF bump_distinct [OF Cons.prems(1), of l] bump_positive [OF Cons.prems(2), of l]]
    show ?thesis using True by simp
  next
    case False
    from Cons.IH [OF Cons.prems] show ?thesis using False by auto
  qed
qed

lemma count_lines_get:
  "get_count (count_lines ls cs) k =
     get_count cs k + count_list (filter (\<lambda>l. 3 \<le> length l \<and> length l \<le> 120) ls) k"
  by (induction ls arbitrary: cs) (auto simp: bump_get)

lemma gather_snd: "snd (gather pages cs pl) = pl @ map page_lines_of pages"
  by (induction pages arbitrary: cs pl) (simp_all add: Let_def)

lemma gather_inv:
  "distinct (map fst cs) \<Longrightarrow> \<forall>p\<in>set cs. 0 < snd p \<Longrightarrow>
   distinct (map fst (fst (gather pages cs pl))) \<and> (\<forall>p\<in>set (fst (gather pages cs pl)). 0 < snd p)"
proof (induction pages arbitrary: cs pl)
  case Nil
  then show ?case by simp
next
  case (Cons page pages)
  from count_lines_inv [OF Cons.prems, of "page_lines_of page"]
  have a: "distinct (map fst (count_lines (page_lines_of page) cs))"
    and b: "\<forall>p\<in>set (count_lines (page_lines_of page) cs). 0 < snd p" by auto
  from Cons.IH [OF a b] show ?case by (simp add: Let_def)
qed

lemma gather_get:
  "get_count (fst (gather pages cs pl)) k =
     get_count cs k +
     count_list (filter (\<lambda>l. 3 \<le> length l \<and> length l \<le> 120) (concat (map page_lines_of pages))) k"
  by (induction pages arbitrary: cs pl) (simp_all add: Let_def count_lines_get)

lemma get_count_Nil: "get_count [] k = 0"
  by (simp add: get_count_def)

lemma count_list_filter: "count_list (filter P xs) x = (if P x then count_list xs x else 0)"
  by (induction xs) auto

lemma repeated_iff:
  assumes "distinct (map fst cs)" "\<forall>p\<in>set cs. 0 < snd p" "0 < n"
  shows "r \<in> set (map fst (filter (\<lambda>(l, c). c \<ge> n) cs)) \<longleftrightarrow> n \<le> get_count cs r"
proof
  assume "r \<in> set (map fst (filter (\<lambda>(l, c). c \<ge> n) cs))"
  then obtain c where "(r, c) \<in> set cs" "n \<le> c" by auto
  with assms(1) show "n \<le> get_count cs r" by (simp add: get_count_def)
next
  assume n: "n \<le> get_count cs r"
  with assms(3) obtain c where c: "map_of cs r = Some c" "n \<le> c"
    by (cases "map_of cs r") (auto simp: get_count_def)
  then have "(r, c) \<in> set cs" by (simp add: map_of_SomeD)
  with c(2) show "r \<in> set (map fst (filter (\<lambda>(l, c). c \<ge> n) cs))" by force
qed

lemma pattern_search_repeated:
  "pattern_search (map fst (filter (\<lambda>(l, c). c \<ge> max 2 (length pages div 6)) (fst (gather pages [] []))))
     l0 \<longleftrightarrow> (\<exists>r. is_repeated pages r \<and> sublist r l0)"
proof -
  let ?cs = "fst (gather pages [] [])"
  let ?n = "max 2 (length pages div 6)"
  have inv: "distinct (map fst ?cs)" "\<forall>p\<in>set ?cs. 0 < snd p"
    using gather_inv [of "[]" pages "[]"] by auto
  have "\<And>r. r \<in> set (map fst (filter (\<lambda>(l, c). c \<ge> ?n) ?cs)) \<longleftrightarrow> is_repeated pages r"
  proof -
    fix r
    have "r \<in> set (map fst (filter (\<lambda>(l, c). c \<ge> ?n) ?cs)) \<longleftrightarrow> ?n \<le> get_count ?cs r"
      by (rule repeated_iff [OF inv]) simp
    also have "\<dots> \<longleftrightarrow> is_repeated pages r"
      by (auto simp: gather_get get_count_Nil count_list_filter is_repeated_def)
    finally show "r \<in> set (map fst (filter (\<lambda>(l, c). c \<ge> ?n) ?cs)) \<longleftrightarrow> is_repeated pages r" .
  qed
  then show ?thesis unfolding pattern_search_def list_ex_iff by blast
qed

lemma clean_page_eq:
  "clean_page repeated lines = join [CHR 0x0A] (filter (\<lambda>l. \<not> pattern_search repeated l) lines)"
  by (cases "repeated = []") (auto simp: clean_page_def pattern_search_def)

lemma remove_repeated_headers_eq:
  "remove_repeated_headers pages =
     join [CHR 0x0A, CHR 0x0A]
       (map (\<lambda>page. join [CHR 0x0A]
               (filter (\<lambda>l. \<not> (\<exists>r. is_repeated pages r \<and> sublist r l)) (page_lines_of page)))
          pages)"
proof -
  obtain cs pl where g: "gather pages [] [] = (cs, pl)" by (cases "gather pages [] []")
  then have pl: "pl = map page_lines_of pages" and cs: "cs = fst (gather pages [] [])"
    using gather_snd [of pages "[]" "[]"] by auto
  have "map (clean_page (map fst (filter (\<lambda>(l, c). c \<ge> max 2 (length pages div 6)) cs))) pl =
      map (\<lambda>page. join [CHR 0x0A]
               (filter (\<lambda>l. \<not> (\<exists>r. is_repeated pages r \<and> sublist r l)) (page_lines_of page)))
          pages"
    unfolding pl cs by (simp only: map_map comp_def clean_page_eq pattern_search_repeated)
  then show ?thesis
    unfolding remove_repeated_headers_def g by (simp only: prod.case Let_def)
qed

lemma distinct_count_list: "distinct xs \<Longrightarrow> count_list xs x = (if x \<in> set xs then 1 else 0)"
  by (induction xs) auto

lemma count_list_pages:
  "\<forall>page\<in>set pages. distinct (page_lines_of page) \<Longrightarrow>
   count_list (concat (map page_lines_of pages)) r =
     length (filter (\<lambda>page. r \<in> set (page_lines_of page)) pages)"
  by (induction pages) (simp_all add: distinct_count_list)

lemma count_list_every_page:
  "\<forall>page\<in>set pages. h \<in> set (page_lines_of page) \<Longrightarrow>
   length pages \<le> count_list (concat (map page_lines_of pages)) h"
proof (induction pages)
  case Nil
  then show ?case by simp
next
  case (Cons page pages)
  then have "count_list (page_lines_of page) h \<noteq> 0"
    by (simp add: count_list_0_iff)
  with Cons show ?case by simp
qed

lemma is_repeated_spec:
  "\<forall>page\<in>set pages. distinct (page_lines_of page) \<Longrightarrow>
   is_repeated pages r = spec_is_header pages r"
  by (simp add: is_repeated_def spec_is_header_def count_list_pages)

lemma splitlines_from_no_break:
  "\<forall>c\<in>set cur. \<not> is_linebreak c \<Longrightarrow>
   \<forall>l\<in>set (splitlines_from cur s). \<forall>c\<in>set l. \<not> is_linebreak c"
proof (induction cur s rule: splitlines_from.induct)
  case (1 cur)
  then show ?case by simp
next
  case (2 cur c)
  then show ?case by simp
next
  case (3 cur c d cs)
  show ?case
  proof (cases "c = CHR 0x0D \<and> d = CHR 0x0A")
    case True
    with 3(1) 3(4) show ?thesis by auto
  next
    case False
    show ?thesis
    proof (cases "is_linebreak c")
      case True
      with False 3(2) 3(4) show ?thesis by auto
    next
      case nb: False
      with 3(4) have "\<forall>x\<in>set (c # cur). \<not> is_linebreak x" by simp
      from 3(3) [OF False nb this] False nb show ?thesis by auto
    qed
  qed
qed

lemma strip_subset: "set (strip s) \<subseteq> set s"
proof -
  have "set (strip s) \<subseteq> set (dropWhile is_space s)"
    unfolding strip_def using set_dropWhileD [of _ is_space "rev (dropWhile is_space s)"] by auto
  also have "\<dots> \<subseteq> set s" using set_dropWhileD [of _ is_space s] by auto
  finally show ?thesis .
qed

lemma page_lines_no_newline: "l \<in> set (page_lines_of page) \<Longrightarrow> CHR 0x0A \<notin> set l"
proof
  assume l: "l \<in> set (page_lines_of page)" and n: "CHR 0x0A \<in> set l"
  from l obtain l' where l': "l' \<in> set (splitlines page)" "l = strip l'"
    by (auto simp: page_lines_of_def)
  with n strip_subset [of l'] have "CHR 0x0A \<in> set l'" by auto
  moreover have "\<forall>c\<in>set l'. \<not> is_linebreak c"
    using splitlines_from_no_break [of "[]" page] l'(1) by (simp add: splitlines_def)
  moreover have "is_linebreak (CHR 0x0A)" by (simp add: is_linebreak_def)
  ultimately show False by blast
qed

lemma sublist_join:
  assumes "h \<noteq> []" "sep \<noteq> []" "set sep \<inter> set h = {}"
  shows "sublist h (join sep xs) \<Longrightarrow> \<exists>x\<in>set xs. sublist h x"
proof (induction xs rule: induct_list012)
  case 1
  with assms(1) show ?case by simp
next
  case (2 x)
  then show ?case by simp
next
  case (3 x y ys)
  have in_sep: "\<And>u. u \<noteq> [] \<Longrightarrow> set u \<subseteq> set h \<Longrightarrow> set u \<subseteq> set sep \<Longrightarrow> False"
  proof -
    fix u :: string assume "u \<noteq> []" "set u \<subseteq> set h" "set u \<subseteq> set sep"
    then have "hd u \<in> set h" "hd u \<in> set sep" by auto
    with assms(3) show False by auto
  qed
  let ?rest = "join sep (y # ys)"
  from 3(3) have "sublist h (x @ sep @ ?rest)" by simp
  then consider (a) "sublist h x" | (b) "sublist h (sep @ ?rest)"
    | (c) h1 h2 where "h = h1 @ h2" "suffix h1 x" "prefix h2 (sep @ ?rest)"
    unfolding sublist_append [of h x] by blast
  then show ?case
  proof cases
    case a
    then show ?thesis by auto
  next
    case b
    then consider (b1) "sublist h sep" | (b2) "sublist h ?rest"
      | (b3) h1 h2 where "h = h1 @ h2" "suffix h1 sep" "prefix h2 ?rest"
      unfolding sublist_append [of h sep] by blast
    then have "sublist h ?rest"
    proof cases
      case b1
      then have "set h \<subseteq> set sep" by (rule set_mono_sublist)
      with in_sep [OF assms(1)] show ?thesis by blast
    next
      case b2
      then show ?thesis .
    next
      case b3
      have "h1 = []"
      proof (rule ccontr)
        assume "h1 \<noteq> []"
        moreover have "set h1 \<subseteq> set h" using b3(1) by auto
        moreover have "set h1 \<subseteq> set sep" using b3(2) by (auto simp: suffix_def)
        ultimately show False by (rule in_sep)
      qed
      with b3 show ?thesis by auto
    qed
    with 3(2) show ?thesis by auto
  next
    case c
    show ?thesis
    proof (cases "h2 = []")
      case True
      with c have "suffix h x" by simp
      then show ?thesis by auto
    next
      case False
      with c(3) assms(2) have "hd h2 = hd sep"
        by (cases h2; cases sep) (auto simp: prefix_def)
      moreover have "hd h2 \<in> set h2" using False by simp
      ultimately have "hd sep \<in> set h" "hd sep \<in> set sep" using assms(2) c(1) by auto
      with assms(3) show ?thesis by auto
    qed
  qed
qed

lemma header_not_in_output:
  assumes "2 \<le> length pages" "3 \<le> length h" "length h \<le> 120"
    and "\<forall>page\<in>set pages. h \<in> set (page_lines_of page)"
  shows "\<not> sublist h (remove_repeated_headers pages)"
proof
  assume s: "sublist h (remove_repeated_headers pages)"
  have ne: "h \<noteq> []" using assms(2) by auto
  from assms(1) obtain page where "page \<in> set pages" by (cases pages) auto
  with assms(4) have nl: "CHR 0x0A \<notin> set h" using page_lines_no_newline by blast
  have rep: "is_repeated pages h"
    using count_list_every_page [OF assms(4)] assms(1,2,3)
    by (simp add: is_repeated_def)
  let ?kept = "\<lambda>page. filter (\<lambda>l. \<not> (\<exists>r. is_repeated pages r \<and> sublist r l)) (page_lines_of page)"
  from s have "sublist h (join [CHR 0x0A, CHR 0x0A] (map (\<lambda>page. join [CHR 0x0A] (?kept page)) pages))"
    by (simp only: remove_repeated_headers_eq)
  from sublist_join [OF ne _ _ this] nl
  obtain page where "page \<in> set pages" "sublist h (join [CHR 0x0A] (?kept page))" by auto
  from sublist_join [OF ne _ _ this(2)] nl
  obtain l where "l \<in> set (?kept page)" "sublist h l" by auto
  with rep show False by auto
qed


text \<open>
  Claim C5 (repeated headers and footers). As stated the claim fails in two ways that the
  code shows by design. A line is dropped when it contains a repeated line as a substring,
  not only when it is one: of the pages \<open>abc / xabcx\<close> and \<open>abc\<close> nothing is left,
  though \<open>xabcx\<close> stands on one page only. And a line is dropped only from two
  occurrences on, so the header of a one-page document stays.
\<close>

theorem remove_repeated_headers_counterexample:
  "\<not> spec_is_header [''abc\<newline>xabcx'', ''abc''] ''xabcx''
   \<and> remove_repeated_headers [''abc\<newline>xabcx'', ''abc''] = ''\<newline>\<newline>''
   \<and> spec_remove_headers [''abc\<newline>xabcx'', ''abc''] = ''xabcx\<newline>\<newline>''
   \<and> remove_repeated_headers [''INTERNAL - CONFIDENTIAL\<newline>Body text.''] =
       ''INTERNAL - CONFIDENTIAL\<newline>Body text.''"
  by code_simp

text \<open>
  Claim C5 as amended. Where no page holds the same line twice, a trimmed non-empty line is
  removed exactly when it contains, as a contiguous substring, a line of 3 to 120
  characters that occurs on at least \<open>max(2, page_count // 6)\<close> distinct pages; every other
  line is kept, in order, lines joined by a line feed and pages by two. And a line of 3 to
  120 characters that stands on every page of a document of at least two pages occurs
  nowhere in the output.
\<close>

theorem remove_repeated_headers_amended:
  "((\<forall>page\<in>set pages. distinct (page_lines_of page)) \<longrightarrow>
      remove_repeated_headers pages =
        join [CHR 0x0A, CHR 0x0A]
          (map (\<lambda>page. join [CHR 0x0A]
                  (filter (\<lambda>l. \<not> (\<exists>r. spec_is_header pages r \<and> sublist r l)) (page_lines_of page)))
             pages))
   \<and> (2 \<le> length pages \<and> 3 \<le> length h \<and> length h \<le> 120
        \<and> (\<forall>page\<in>set pages. h \<in> set (page_lines_of page)) \<longrightarrow>
      \<not> sublist h (remove_repeated_headers pages))"
proof (intro conjI impI)
  assume "\<forall>page\<in>set pages. distinct (page_lines_of page)"
  then have "\<And>r. is_repeated pages r = spec_is_header pages r" by (rule is_repeated_spec)
  then show "remove_repeated_headers pages =
        join [CHR 0x0A, CHR 0x0A]
          (map (\<lambda>page. join [CHR 0x0A]
                  (filter (\<lambda>l. \<not> (\<exists>r. spec_is_header pages r \<and> sublist r l)) (page_lines_of page)))
             pages)"
    by (simp only: remove_repeated_headers_eq)
next
  assume "2 \<le> length pages \<and> 3 \<le> length h \<and> length h \<le> 120
        \<and> (\<forall>page\<in>set pages. h \<in> set (page_lines_of page))"
  then show "\<not> sublist h (remove_repeated_headers pages)"
    using header_not_in_output by blast
qed

theorem remove_repeated_headers_amended_witness:
  "list_all (\<lambda>page. distinct (page_lines_of page))
     [''INTERNAL - CONFIDENTIAL\<newline>Body one.'', ''INTERNAL - CONFIDENTIAL\<newline>Body two.'']
   \<and> list_all (\<lambda>page. ''INTERNAL - CONFIDENTIAL'' \<in> set (page_lines_of page))
     [''INTERNAL - CONFIDENTIAL\<newline>Body one.'', ''INTERNAL - CONFIDENTIAL\<newline>Body two.'']
   \<and> \<not> sublist ''INTERNAL - CONFIDENTIAL''
        (remove_repeated_headers
          [''INTERNAL - CONFIDENTIAL\<newline>Body one.'', ''INTERNAL - CONFIDENTIAL\<newline>Body two.''])
   \<and> remove_repeated_headers
        [''INTERNAL - CONFIDENTIAL\<newline>Body one.'', ''INTERNAL - CONFIDENTIAL\<newline>Body two.''] =
      join [CHR 0x0A, CHR 0x0A]
          (map (\<lambda>page. join [CHR 0x0A]
                  (filter (\<lambda>l. \<not> (\<exists>r. spec_is_header
                       [''INTERNAL - CONFIDENTIAL\<newline>Body one.'', ''INTERNAL - CONFIDENTIAL\<newline>Body two.''] r
                       \<and> sublist r l)) (page_lines_of page)))
             [''INTERNAL - CONFIDENTIAL\<newline>Body one.'', ''INTERNAL - CONFIDENTIAL\<newline>Body two.''])"
proof -
  let ?P = "[''INTERNAL - CONFIDENTIAL\<newline>Body one.'', ''INTERNAL - CONFIDENTIAL\<newline>Body two.'']"
  let ?h = "''INTERNAL - CONFIDENTIAL''"
  have d: "list_all (\<lambda>page. distinct (page_lines_of page)) ?P" by code_simp
  have e: "list_all (\<lambda>page. ?h \<in> set (page_lines_of page)) ?P" by code_simp
  have d': "\<forall>page\<in>set ?P. distinct (page_lines_of page)" using d by (simp only: list_all_iff)
  have e': "2 \<le> length ?P \<and> 3 \<le> length ?h \<and> length ?h \<le> 120
      \<and> (\<forall>page\<in>set ?P. ?h \<in> set (page_lines_of page))"
    using e by (simp add: list_all_iff)
  from remove_repeated_headers_amended [of ?P ?h] d' e' d e
  show ?thesis by blast
qed

subsection \<open>Sentence segmenter\<close>

lemma boundary_after_False: "boundary_after la False u v = boundary la u v"
  by (auto simp: boundary_after_def boundary_def)

lemma boundary_after_Cons:
  "boundary_after la b (c # u) v = boundary_after la (is_terminal c) u v"
  by (cases u) (auto simp: boundary_after_def)

lemma re_split_whole:
  "(\<And>u v. s = u @ v \<Longrightarrow> \<not> boundary_after la b u v) \<Longrightarrow> re_split la b s = [s]"
proof (induction s arbitrary: b)
  case Nil
  then show ?case by simp
next
  case (Cons c cs)
  have nohead: "\<not> (b \<and> is_space c \<and> la (next_char (dropWhile is_space cs)))"
    using Cons.prems [of "[]" "c # cs"] by (auto simp: boundary_after_def)
  have "\<And>u v. cs = u @ v \<Longrightarrow> \<not> boundary_after la (is_terminal c) u v"
    using Cons.prems [of "c # u" v for u v] by (simp add: boundary_after_Cons)
  from Cons.IH [OF this] have "re_split la (is_terminal c) cs = [cs]" .
  with nohead show ?case by auto
qed

lemma re_split_cut:
  "boundary_after la b u v \<Longrightarrow>
   (\<And>u' v'. u = u' @ v' \<Longrightarrow> v' \<noteq> [] \<Longrightarrow> \<not> boundary_after la b u' (v' @ v)) \<Longrightarrow>
   re_split la b (u @ v) = u # re_split la False (dropWhile is_space v)"
proof (induction u arbitrary: b)
  case Nil
  then obtain c cs where v: "v = c # cs" "b" "is_space c" "la (next_char (dropWhile is_space (c # cs)))"
    by (cases v) (auto simp: boundary_after_def)
  then show ?case by simp
next
  case (Cons c u)
  have nohead: "\<not> (b \<and> is_space c \<and> la (next_char (dropWhile is_space (u @ v))))"
    using Cons.prems(2) [of "[]" "c # u"] by (auto simp: boundary_after_def)
  have b': "boundary_after la (is_terminal c) u v"
    using Cons.prems(1) by (simp add: boundary_after_Cons)
  have "\<And>u' v'. u = u' @ v' \<Longrightarrow> v' \<noteq> [] \<Longrightarrow> \<not> boundary_after la (is_terminal c) u' (v' @ v)"
    using Cons.prems(2) [of "c # u'" v' for u' v'] by (simp add: boundary_after_Cons)
  from Cons.IH [OF b' this]
  have "re_split la (is_terminal c) (u @ v) = u # re_split la False (dropWhile is_space v)" .
  with nohead show ?case by auto
qed

lemma split_spec_unique: "split_spec la t ps \<Longrightarrow> ps = re_split la False t"
proof (induction rule: split_spec.induct)
  case (whole t)
  then show ?case using re_split_whole [of t la False] by (simp add: boundary_after_False)
next
  case (cut u v ps)
  from re_split_cut [of la False u v] cut.hyps(1,2)
  have "re_split la False (u @ v) = u # re_split la False (dropWhile is_space v)"
    by (simp add: boundary_after_False)
  with cut.IH show ?case by simp
qed

lemma split_spec_re_split: "split_spec la t (re_split la False t)"
proof (induction "length t" arbitrary: t rule: less_induct)
  case less
  show ?case
  proof (cases "\<exists>n. boundary la (take n t) (drop n t)")
    case False
    have nb: "\<And>u v. t = u @ v \<Longrightarrow> \<not> boundary la u v"
    proof -
      fix u v assume "t = u @ v"
      then have "take (length u) t = u" "drop (length u) t = v" by simp_all
      with False show "\<not> boundary la u v" by metis
    qed
    then have "re_split la False t = [t]"
      using re_split_whole [of t la False] by (simp add: boundary_after_False)
    with nb show ?thesis by (simp add: split_spec.whole)
  next
    case True
    then obtain n where n: "boundary la (take n t) (drop n t)"
      and least: "\<forall>m. boundary la (take m t) (drop m t) \<longrightarrow> n \<le> m"
      using ex_has_least_nat [of "\<lambda>n. boundary la (take n t) (drop n t)" _ "\<lambda>n. n"] by auto
    let ?u = "take n t" and ?v = "drop n t"
    have v: "?v \<noteq> []" "is_space (hd ?v)" using n by (auto simp: boundary_def)
    then have nlt: "n < length t" by simp
    have lm: "\<And>u' v'. ?u = u' @ v' \<Longrightarrow> v' \<noteq> [] \<Longrightarrow> \<not> boundary la u' (v' @ ?v)"
    proof
      fix u' v' assume e: "?u = u' @ v'" and ne: "v' \<noteq> []" and b: "boundary la u' (v' @ ?v)"
      have len: "length ?u = length u' + length v'" using e by (metis length_append)
      then have lu: "length u' \<le> n" using nlt by simp
      have "take (length u') t = take (length u') ?u" using lu by (simp add: min_def)
      also have "\<dots> = u'" unfolding e by simp
      finally have tk: "take (length u') t = u'" .
      have "drop (length u') t = drop (length u') (?u @ ?v)" by simp
      also have "\<dots> = v' @ ?v" unfolding e by simp
      finally have dr: "drop (length u') t = v' @ ?v" .
      from b least tk dr have "n \<le> length u'" by metis
      then show False using len ne nlt by simp
    qed
    have shorter: "length (dropWhile is_space ?v) < length t"
    proof -
      from v obtain c cs where "?v = c # cs" "is_space c" by (cases ?v) auto
      then have "length (dropWhile is_space ?v) \<le> length cs"
        by (simp add: length_dropWhile_le)
      also have "\<dots> < length ?v" using \<open>?v = c # cs\<close> by simp
      also have "\<dots> \<le> length t" by simp
      finally show ?thesis .
    qed
    have "re_split la False (?u @ ?v) = ?u # re_split la False (dropWhile is_space ?v)"
      using re_split_cut [of la False ?u ?v] n lm by (simp add: boundary_after_False)
    moreover have "split_spec la (?u @ ?v) (?u # re_split la False (dropWhile is_space ?v))"
      using n lm less [OF shorter] by (rule split_spec.cut)
    ultimately show ?thesis by simp
  qed
qed

lemma split_spec_iff: "split_spec la t ps \<longleftrightarrow> ps = re_split la False t"
  using split_spec_unique split_spec_re_split by blast

text \<open>
  Claim C9 (sentence segmenter). As stated the claim fails: the first pattern looks ahead
  for the class \<open>[A-Z0-9"']\<close>, not for any upper-case letter. Take the text
  \<open>One. Emile came. Two.\<close> with U+00C9, the upper-case letter E with acute accent, for the
  \<open>E\<close>: the rule as worded cuts after \<open>One.\<close> and gives three sentences, the segmenter
  does not cut there and returns two.
\<close>

theorem sentence_segmenter_counterexample:
  "split_spec spec_ahead (strip (re_sub_ws (''One. '' @ CHR 0xC9 # ''mile came. Two.'')))
     [''One.'', CHR 0xC9 # ''mile came.'', ''Two.'']
   \<and> split_into_sentences (''One. '' @ CHR 0xC9 # ''mile came. Two.'') =
       [''One. '' @ CHR 0xC9 # ''mile came.'', ''Two.'']
   \<and> is_upper (CHR 0xC9) \<and> \<not> is_sentence_start (CHR 0xC9)"
proof -
  have a: "[''One.'', CHR 0xC9 # ''mile came.'', ''Two.''] =
      re_split spec_ahead False (strip (re_sub_ws (''One. '' @ CHR 0xC9 # ''mile came. Two.'')))"
    by code_simp
  have b: "split_into_sentences (''One. '' @ CHR 0xC9 # ''mile came. Two.'') =
       [''One. '' @ CHR 0xC9 # ''mile came.'', ''Two.'']"
    by code_simp
  have c: "is_upper (CHR 0xC9)" "\<not> is_sentence_start (CHR 0xC9)"
    by (simp_all add: is_upper_def is_sentence_start_def)
  from a have "split_spec spec_ahead (strip (re_sub_ws (''One. '' @ CHR 0xC9 # ''mile came. Two.'')))
     [''One.'', CHR 0xC9 # ''mile came.'', ''Two.'']"
    by (simp only: split_spec_iff)
  with b c show ?thesis by (simp only: simp_thms)
qed

text \<open>
  Claim C9 as amended: the class of the first rule is the letters \<open>A\<close> to \<open>Z\<close>, the digits
  \<open>0\<close> to \<open>9\<close>, the double and the single quote (\<open>primary_ahead\<close>). On the
  whitespace-normalized text, the parts that the first pattern yields are exactly the parts
  of the split at the boundaries "terminal mark, whitespace, then a character of that
  class", and those of the fallback pattern exactly the parts of the split at the
  boundaries "terminal mark, whitespace". The segmenter returns nothing for the empty
  text; otherwise it takes the parts of the first rule, or those of the fallback rule when
  the first rule gives a single part, trims them and drops the ones that are empty after
  trimming. No returned sentence is empty or starts or ends with whitespace.
\<close>

theorem sentence_segmenter:
  "(split_spec primary_ahead t ps \<longleftrightarrow> ps = re_split primary_ahead False t)
   \<and> (split_spec fallback_ahead t ps \<longleftrightarrow> ps = re_split fallback_ahead False t)
   \<and> split_into_sentences [] = []
   \<and> (doc \<noteq> [] \<and> split_spec primary_ahead (strip (re_sub_ws doc)) P
         \<and> split_spec fallback_ahead (strip (re_sub_ws doc)) F \<longrightarrow>
       split_into_sentences doc =
         map strip (filter (\<lambda>p. strip p \<noteq> []) (if length P = 1 then F else P)))
   \<and> (\<forall>s\<in>set (split_into_sentences doc). s \<noteq> [] \<and> \<not> is_space (hd s) \<and> \<not> is_space (last s))"
proof -
  have 1: "split_spec primary_ahead t ps \<longleftrightarrow> ps = re_split primary_ahead False t"
    by (rule split_spec_iff)
  have 2: "split_spec fallback_ahead t ps \<longleftrightarrow> ps = re_split fallback_ahead False t"
    by (rule split_spec_iff)
  have 3: "split_into_sentences [] = []" by (simp add: split_into_sentences_def)
  have 4: "doc \<noteq> [] \<and> split_spec primary_ahead (strip (re_sub_ws doc)) P
         \<and> split_spec fallback_ahead (strip (re_sub_ws doc)) F \<longrightarrow>
       split_into_sentences doc =
         map strip (filter (\<lambda>p. strip p \<noteq> []) (if length P = 1 then F else P))"
    by (auto simp: split_spec_iff split_into_sentences_def Let_def)
  have 5: "\<forall>s\<in>set (split_into_sentences doc). s \<noteq> [] \<and> \<not> is_space (hd s) \<and> \<not> is_space (last s)"
    using split_into_sentences_trimmed [of doc] by (simp add: trimmed_def)
  from 1 2 3 4 5 show ?thesis by (simp only: simp_thms)
qed

theorem sentence_segmenter_witness:
  "split_spec primary_ahead (strip (re_sub_ws ''hello there.  how are you? Fine.''))
     [''hello there. how are you?'', ''Fine.'']
   \<and> split_into_sentences ''hello there.  how are you? Fine.'' =
       [''hello there. how are you?'', ''Fine.'']
   \<and> split_spec primary_ahead (strip (re_sub_ws ''hello there. how are you?''))
       [''hello there. how are you?'']
   \<and> split_spec fallback_ahead (strip (re_sub_ws ''hello there. how are you?''))
       [''hello there.'', ''how are you?'']
   \<and> split_into_sentences ''hello there. how are you?'' = [''hello there.'', ''how are you?'']"
proof -
  let ?d1 = "''hello there.  how are you? Fine.''" and ?d2 = "''hello there. how are you?''"
  have p1: "[''hello there. how are you?'', ''Fine.''] =
      re_split primary_ahead False (strip (re_sub_ws ?d1))" by code_simp
  have f1: "[''hello there.'', ''how are you?'', ''Fine.''] =
      re_split fallback_ahead False (strip (re_sub_ws ?d1))" by code_simp
  have p2: "[''hello there. how are you?''] =
      re_split primary_ahead False (strip (re_sub_ws ?d2))" by code_simp
  have f2: "[''hello there.'', ''how are you?''] =
      re_split fallback_ahead False (strip (re_sub_ws ?d2))" by code_simp
  have sp1: "split_spec primary_ahead (strip (re_sub_ws ?d1)) [''hello there. how are you?'', ''Fine.'']"
    using sentence_segmenter [of "strip (re_sub_ws ?d1)" "[''hello there. how are you?'', ''Fine.'']"] p1
    by blast
  have sf1: "split_spec fallback_ahead (strip (re_sub_ws ?d1)) [''hello there.'', ''how are you?'', ''Fine.'']"
    using sentence_segmenter [of "strip (re_sub_ws ?d1)" "[''hello there.'', ''how are you?'', ''Fine.'']"] f1
    by blast
  have sp2: "split_spec primary_ahead (strip (re_sub_ws ?d2)) [''hello there. how are you?'']"
    using sentence_segmenter [of "strip (re_sub_ws ?d2)" "[''hello there. how are you?'']"] p2
    by blast
  have sf2: "split_spec fallback_ahead (strip (re_sub_ws ?d2)) [''hello there.'', ''how are you?'']"
    using sentence_segmenter [of "strip (re_sub_ws ?d2)" "[''hello there.'', ''how are you?'']"] f2
    by blast
  have ne: "?d1 \<noteq> []" "?d2 \<noteq> []" by simp_all
  have r1: "split_into_sentences ?d1 =
      map strip (filter (\<lambda>p. strip p \<noteq> [])
        (if length [''hello there. how are you?'', ''Fine.''] = 1
         then [''hello there.'', ''how are you?'', ''Fine.'']
         else [''hello there. how are you?'', ''Fine.'']))"
    using sentence_segmenter [where doc = ?d1 and P = "[''hello there. how are you?'', ''Fine.'']"
        and F = "[''hello there.'', ''how are you?'', ''Fine.'']"] ne(1) sp1 sf1
    by blast
  have r2: "split_into_sentences ?d2 =
      map strip (filter (\<lambda>p. strip p \<noteq> [])
        (if length [''hello there. how are you?''] = 1
         then [''hello there.'', ''how are you?'']
         else [''hello there. how are you?'']))"
    using sentence_segmenter [where doc = ?d2 and P = "[''hello there. how are you?'']"
        and F = "[''hello there.'', ''how are you?'']"] ne(2) sp2 sf2
    by blast
  have e1: "map strip (filter (\<lambda>p. strip p \<noteq> [])
        (if length [''hello there. how are you?'', ''Fine.''] = 1
         then [''hello there.'', ''how are you?'', ''Fine.'']
         else [''hello there. how are you?'', ''Fine.''])) = [''hello there. how are you?'', ''Fine.'']"
    by code_simp
  have e2: "map strip (filter (\<lambda>p. strip p \<noteq> [])
        (if length [''hello there. how are you?''] = 1
         then [''hello there.'', ''how are you?'']
         else [''hello there. how are you?''])) = [''hello there.'', ''how are you?'']"
    by code_simp
  from sp1 sp2 sf2 r1 r2 e1 e2 show ?thesis by (simp only: simp_thms)
qed

subsection \<open>Chunker\<close>

lemma accumulate_bounds:
  "j \<le> length S \<Longrightarrow> j \<le> fst (accumulate S T cs j acc cur) \<and> fst (accumulate S T cs j acc cur) \<le> length S"
proof (induction S T cs j acc cur rule: accumulate.induct)
  case (1 S T cs j acc cur)
  show ?case
  proof (cases "j < length S \<and> acc < cs")
    case True
    then have "Suc j \<le> length S" by simp
    with 1 True show ?thesis by (subst (1 2) accumulate.simps) auto
  next
    case False
    with 1 show ?thesis by (subst (1 2) accumulate.simps) auto
  qed
qed

lemma accumulate_progress:
  "j < length S \<Longrightarrow> acc < cs \<Longrightarrow> j < fst (accumulate S T cs j acc cur)"
  using accumulate_bounds [of "Suc j" S T cs "acc + int (T ! j)" "cur @ [S ! j]"]
  by (subst accumulate.simps) auto

lemma accumulate_sentences:
  "j \<le> length S \<Longrightarrow>
   snd (snd (accumulate S T cs j acc cur)) =
     cur @ take (fst (accumulate S T cs j acc cur) - j) (drop j S)"
proof (induction S T cs j acc cur rule: accumulate.induct)
  case (1 S T cs j acc cur)
  show ?case
  proof (cases "j < length S \<and> acc < cs")
    case True
    then have le: "Suc j \<le> length S" by simp
    have lt: "j < fst (accumulate S T cs (Suc j) (acc + int (T ! j)) (cur @ [S ! j]))"
      using accumulate_bounds [OF le, of T cs "acc + int (T ! j)" "cur @ [S ! j]"] by simp
    have step: "accumulate S T cs j acc cur =
        accumulate S T cs (Suc j) (acc + int (T ! j)) (cur @ [S ! j])"
      using True by (subst accumulate.simps) simp
    have "take (fst (accumulate S T cs (Suc j) (acc + int (T ! j)) (cur @ [S ! j])) - j) (drop j S)
        = S ! j # take (fst (accumulate S T cs (Suc j) (acc + int (T ! j)) (cur @ [S ! j])) - Suc j) (drop (Suc j) S)"
      using True lt by (simp add: Cons_nth_drop_Suc [symmetric] take_Cons' )
    with 1 True le show ?thesis unfolding step by simp
  next
    case False
    then show ?thesis by (subst (1 2) accumulate.simps) auto
  qed
qed

lemma accumulate_stop:
  "j \<le> length S \<Longrightarrow>
   fst (accumulate S T cs j acc cur) = length S \<or>
   cs \<le> acc + (\<Sum>k = j..<fst (accumulate S T cs j acc cur). int (T ! k))"
proof (induction S T cs j acc cur rule: accumulate.induct)
  case (1 S T cs j acc cur)
  show ?case
  proof (cases "j < length S \<and> acc < cs")
    case True
    then have le: "Suc j \<le> length S" by simp
    have lt: "j < fst (accumulate S T cs (Suc j) (acc + int (T ! j)) (cur @ [S ! j]))"
      using accumulate_bounds [OF le, of T cs "acc + int (T ! j)" "cur @ [S ! j]"] by simp
    have step: "accumulate S T cs j acc cur =
        accumulate S T cs (Suc j) (acc + int (T ! j)) (cur @ [S ! j])"
      using True by (subst accumulate.simps) simp
    from 1 True le lt show ?thesis unfolding step
      by (auto simp: sum.atLeast_Suc_lessThan)
  next
    case False
    then show ?thesis using 1 by (subst (1 2) accumulate.simps) auto
  qed
qed

lemma accumulate_below:
  "j \<le> m \<Longrightarrow> m < fst (accumulate S T cs j acc cur) \<Longrightarrow>
   acc + (\<Sum>k = j..<m. int (T ! k)) < cs"
proof (induction S T cs j acc cur arbitrary: m rule: accumulate.induct)
  case (1 S T cs j acc cur)
  show ?case
  proof (cases "j < length S \<and> acc < cs")
    case True
    have step: "accumulate S T cs j acc cur =
        accumulate S T cs (Suc j) (acc + int (T ! j)) (cur @ [S ! j])"
      using True by (subst accumulate.simps) simp
    show ?thesis
    proof (cases "m = j")
      case True
      with \<open>j < length S \<and> acc < cs\<close> show ?thesis by simp
    next
      case False
      with 1(2) have "Suc j \<le> m" by simp
      moreover have "m < fst (accumulate S T cs (Suc j) (acc + int (T ! j)) (cur @ [S ! j]))"
        using 1(3) unfolding step .
      ultimately have "acc + int (T ! j) + (\<Sum>k = Suc j..<m. int (T ! k)) < cs"
        using 1(1) True by simp
      moreover have "(\<Sum>k = j..<m. int (T ! k)) = int (T ! j) + (\<Sum>k = Suc j..<m. int (T ! k))"
        using \<open>Suc j \<le> m\<close> by (simp add: sum.atLeast_Suc_lessThan)
      ultimately show ?thesis by simp
    qed
  next
    case False
    then have "accumulate S T cs j acc cur = (j, acc, cur)" by (subst accumulate.simps) auto
    with 1(2,3) show ?thesis by simp
  qed
qed

lemma accumulate_mono:
  assumes "i \<le> i'" "i' \<le> fst (accumulate S T cs i 0 cur)" "i' \<le> length S"
  shows "fst (accumulate S T cs i 0 cur) \<le> fst (accumulate S T cs i' 0 cur')"
proof (rule ccontr)
  let ?j = "fst (accumulate S T cs i 0 cur)" and ?j' = "fst (accumulate S T cs i' 0 cur')"
  assume "\<not> ?j \<le> ?j'"
  then have lt: "?j' < ?j" by simp
  have b': "i' \<le> ?j'" "?j' \<le> length S" using accumulate_bounds [OF assms(3), of T cs 0 cur'] by auto
  have "i \<le> length S" using assms by simp
  then have "?j \<le> length S" using accumulate_bounds [of i S T cs 0 cur] by simp
  with lt have "?j' \<noteq> length S" by simp
  with accumulate_stop [OF assms(3), of T cs 0 cur']
  have ge: "cs \<le> (\<Sum>k = i'..<?j'. int (T ! k))" by simp
  have "i \<le> ?j'" using assms(1) b'(1) by simp
  from accumulate_below [OF this lt]
  have "(\<Sum>k = i..<?j'. int (T ! k)) < cs" by simp
  moreover have "(\<Sum>k = i..<?j'. int (T ! k)) = (\<Sum>k = i..<i'. int (T ! k)) + (\<Sum>k = i'..<?j'. int (T ! k))"
    using assms(1) b'(1) by (simp add: sum.atLeastLessThan_concat)
  moreover have "0 \<le> (\<Sum>k = i..<i'. int (T ! k))" by (simp add: sum_nonneg)
  ultimately show False using ge by simp
qed

lemma next_start_bounds: "i < j \<Longrightarrow> i < next_start T ov i j \<and> next_start T ov i j \<le> j"
  by (auto simp: next_start_def)

lemma chunk_loop_chain:
  assumes "0 < cs"
  shows "i < length S \<Longrightarrow> e \<le> fst (accumulate S T cs i 0 []) \<Longrightarrow>
    \<exists>sp. chunk_loop S T cs ov i chunks spans =
            Some (chunks @ filter (\<lambda>c. c \<noteq> []) (map (\<lambda>ab. strip (join '' '' (sentence_range S ab))) sp),
                  spans @ sp)
          \<and> chain (length S) i e sp"
proof (induction "length S - i" arbitrary: i e chunks spans rule: less_induct)
  case less
  obtain j acc cur where acc: "accumulate S T cs i 0 [] = (j, acc, cur)"
    by (cases "accumulate S T cs i 0 []") auto
  have j: "i < j" "j \<le> length S"
    using accumulate_progress [of i S 0 cs T "[]"] accumulate_bounds [of i S T cs 0 "[]"]
      less.prems(1) assms acc by auto
  have cur: "cur = sentence_range S (i, j)"
    using accumulate_sentences [of i S T cs 0 "[]"] less.prems(1) acc
    by (simp add: sentence_range_def)
  let ?c = "strip (join '' '' (sentence_range S (i, j)))"
  let ?chunks = "if ?c \<noteq> [] then chunks @ [?c] else chunks"
  show ?case
  proof (cases "length S \<le> j")
    case True
    then have "chunk_loop S T cs ov i chunks spans = Some (?chunks, spans @ [(i, j)])"
      using less.prems(1) acc cur by (subst chunk_loop.simps) (simp add: Let_def)
    moreover have "chain (length S) i e [(i, j)]"
      using j True less.prems(2) acc by simp
    ultimately show ?thesis
      by (intro exI [of _ "[(i, j)]"]) simp
  next
    case False
    let ?i = "next_start T ov i j"
    have i': "i < ?i" "?i \<le> j" using next_start_bounds [OF j(1)] by auto
    have step: "chunk_loop S T cs ov i chunks spans =
        chunk_loop S T cs ov ?i ?chunks (spans @ [(i, j)])"
      using less.prems(1) acc cur False by (subst chunk_loop.simps) (simp add: Let_def)
    have lt: "?i < length S" using i' False by simp
    have mono: "j \<le> fst (accumulate S T cs ?i 0 [])"
      using accumulate_mono [of i ?i S T cs "[]" "[]"] i' lt acc by simp
    have "length S - ?i < length S - i" using i' lt by simp
    from less.hyps [OF this lt mono, of ?chunks "spans @ [(i, j)]"]
    obtain sp where sp: "chunk_loop S T cs ov ?i ?chunks (spans @ [(i, j)]) =
        Some (?chunks @ filter (\<lambda>c. c \<noteq> []) (map (\<lambda>ab. strip (join '' '' (sentence_range S ab))) sp),
              (spans @ [(i, j)]) @ sp)"
      and ch: "chain (length S) ?i j sp" by blast
    from ch obtain b' rest where sp_eq: "sp = (?i, b') # rest"
      by (cases sp) auto
    have "chain (length S) i e ((i, j) # sp)"
      using j i' False less.prems(2) acc ch sp_eq by simp
    then show ?thesis using step sp
      by (intro exI [of _ "(i, j) # sp"]) simp
  qed
qed

lemma chain_length: "chain N i e sp \<Longrightarrow> length sp \<le> N - i"
proof (induction sp arbitrary: i e)
  case Nil
  then show ?case by simp
next
  case (Cons ab sp)
  obtain a b where ab: "ab = (a, b)" by (cases ab)
  show ?case
  proof (cases sp)
    case Nil
    with Cons.prems ab show ?thesis by auto
  next
    case (Cons ab' rest)
    obtain a' b' where ab': "ab' = (a', b')" by (cases ab')
    from Cons.prems ab Cons ab' have "chain N a' b sp" "i < a'" "a' < N" by auto
    with Cons.IH [of a' b] show ?thesis by simp
  qed
qed

lemma chain_starts: "chain N i e sp \<Longrightarrow> sorted_wrt (<) (map fst sp) \<and> (\<forall>ab\<in>set sp. i \<le> fst ab)"
proof (induction sp arbitrary: i e)
  case Nil
  then show ?case by simp
next
  case (Cons ab sp)
  obtain a b where ab: "ab = (a, b)" by (cases ab)
  show ?case
  proof (cases sp)
    case Nil
    with Cons.prems ab show ?thesis by auto
  next
    case (Cons ab' rest)
    obtain a' b' where ab': "ab' = (a', b')" by (cases ab')
    from Cons.prems ab Cons ab' have "chain N a' b sp" "i < a'" "a = i" by auto
    with Cons.IH [of a' b] ab show ?thesis by fastforce
  qed
qed

lemma chain_ranges: "chain N i e sp \<Longrightarrow> \<forall>ab\<in>set sp. fst ab < snd ab \<and> snd ab \<le> N"
proof (induction sp arbitrary: i e)
  case Nil
  then show ?case by simp
next
  case (Cons ab sp)
  obtain a b where ab: "ab = (a, b)" by (cases ab)
  show ?case
  proof (cases sp)
    case Nil
    with Cons.prems ab show ?thesis by auto
  next
    case (Cons ab' rest)
    obtain a' b' where ab': "ab' = (a', b')" by (cases ab')
    from Cons.prems ab Cons ab' have "chain N a' b sp" "a < b" "b \<le> N" by auto
    with Cons.IH [of a' b] ab show ?thesis by simp
  qed
qed

lemma chain_covers:
  "chain N i e sp \<Longrightarrow> i \<le> s \<Longrightarrow> s < N \<Longrightarrow> \<exists>ab\<in>set sp. fst ab \<le> s \<and> s < snd ab"
proof (induction sp arbitrary: i e)
  case Nil
  then show ?case by simp
next
  case (Cons ab sp)
  obtain a b where ab: "ab = (a, b)" by (cases ab)
  show ?case
  proof (cases "s < b")
    case True
    with Cons.prems ab show ?thesis by auto
  next
    case False
    show ?thesis
    proof (cases sp)
      case Nil
      with Cons.prems ab False show ?thesis by auto
    next
      case (Cons ab' rest)
      obtain a' b' where ab': "ab' = (a', b')" by (cases ab')
      from Cons.prems(1) ab Cons ab' have "chain N a' b sp" "a' \<le> b" by auto
      with Cons.IH [of a' b] False Cons.prems(2,3) show ?thesis by fastforce
    qed
  qed
qed

lemma chain_portions:
  "chain (length S) i e sp \<Longrightarrow> i \<le> e \<Longrightarrow>
   concat (map (sentence_range S) (zip (e # map snd sp) (map snd sp))) = drop e S
   \<and> (\<forall>n<length sp. fst (sp ! n) \<le> (e # map snd sp) ! n \<and> (e # map snd sp) ! n \<le> snd (sp ! n))"
proof (induction sp arbitrary: i e)
  case Nil
  then show ?case by simp
next
  case (Cons ab sp)
  obtain a b where ab: "ab = (a, b)" by (cases ab)
  from Cons.prems ab have base: "a = i" "e \<le> b" "b \<le> length S" by auto
  have piece: "sentence_range S (e, b) @ drop b S = drop e S"
  proof -
    have "take (b - e) (drop e S) @ drop b S =
        take (b - e) (drop e S) @ drop (b - e) (drop e S)"
      using base by simp
    also have "\<dots> = drop e S" by (rule append_take_drop_id)
    finally show ?thesis by (simp add: sentence_range_def)
  qed
  show ?case
  proof (cases sp)
    case Nil
    with Cons.prems ab have "b = length S" by simp
    with piece Nil ab base Cons.prems(2) show ?thesis by simp
  next
    case (Cons ab' rest)
    obtain a' b' where ab': "ab' = (a', b')" by (cases ab')
    from Cons.prems(1) ab Cons ab' have ch: "chain (length S) a' b sp" and le: "a' \<le> b" by auto
    from Cons.IH [OF ch le]
    have ih1: "concat (map (sentence_range S) (zip (b # map snd sp) (map snd sp))) = drop b S"
      and ih2: "\<forall>n<length sp. fst (sp ! n) \<le> (b # map snd sp) ! n \<and> (b # map snd sp) ! n \<le> snd (sp ! n)"
      by auto
    have "concat (map (sentence_range S) (zip (e # map snd (ab # sp)) (map snd (ab # sp)))) = drop e S"
      using ih1 piece ab by simp
    moreover have "\<forall>n<length (ab # sp). fst ((ab # sp) ! n) \<le> (e # map snd (ab # sp)) ! n
          \<and> (e # map snd (ab # sp)) ! n \<le> snd ((ab # sp) ! n)"
    proof (intro allI impI)
      fix n assume "n < length (ab # sp)"
      then show "fst ((ab # sp) ! n) \<le> (e # map snd (ab # sp)) ! n
          \<and> (e # map snd (ab # sp)) ! n \<le> snd ((ab # sp) ! n)"
        using ih2 ab base Cons.prems(2) by (cases n) auto
    qed
    ultimately show ?thesis by blast
  qed
qed


lemma sentence_range_trimmed:
  assumes "\<forall>s\<in>set S. trimmed s" "fst ab < snd ab" "snd ab \<le> length S"
  shows "strip (join '' '' (sentence_range S ab)) = join '' '' (sentence_range S ab)"
    and "join '' '' (sentence_range S ab) \<noteq> []"
proof -
  have ne: "sentence_range S ab \<noteq> []" using assms(2,3) by (simp add: sentence_range_def)
  have "set (sentence_range S ab) \<subseteq> set S"
    unfolding sentence_range_def by (meson set_take_subset set_drop_subset subset_trans)
  with assms(1) have "\<forall>s\<in>set (sentence_range S ab). trimmed s" by blast
  with ne have t: "trimmed (join '' '' (sentence_range S ab))" by (rule join_trimmed)
  then show "strip (join '' '' (sentence_range S ab)) = join '' '' (sentence_range S ab)"
    by (rule trimmed_strip)
  from t show "join '' '' (sentence_range S ab) \<noteq> []" by (simp add: trimmed_def)
qed

lemma chunk_text_spans:
  assumes "0 < or_default chunk_size (CHUNK_SIZE cfg)" "split_into_sentences doc \<noteq> []"
  shows "\<exists>spans.
     chunk_loop (split_into_sentences doc) (map (count_tokens enc) (split_into_sentences doc))
       (or_default chunk_size (CHUNK_SIZE cfg)) (or_default overlap (CHUNK_OVERLAP cfg)) 0 [] [] =
       Some (map (\<lambda>ab. join '' '' (sentence_range (split_into_sentences doc) ab)) spans, spans)
     \<and> chunk_text cfg enc doc chunk_size overlap =
       Some (Inr (map (\<lambda>ab. join '' '' (sentence_range (split_into_sentences doc) ab)) spans))
     \<and> chain (length (split_into_sentences doc)) 0 0 spans"
proof -
  let ?S = "split_into_sentences doc"
  let ?T = "map (count_tokens enc) ?S"
  let ?cs = "or_default chunk_size (CHUNK_SIZE cfg)"
  let ?ov = "or_default overlap (CHUNK_OVERLAP cfg)"
  have "0 < length ?S" using assms(2) by simp
  from chunk_loop_chain [OF assms(1) this, of 0 ?T ?ov "[]" "[]"]
  obtain sp where loop: "chunk_loop ?S ?T ?cs ?ov 0 [] [] =
      Some (filter (\<lambda>c. c \<noteq> []) (map (\<lambda>ab. strip (join '' '' (sentence_range ?S ab))) sp), sp)"
    and ch: "chain (length ?S) 0 0 sp" by auto
  have rng: "\<forall>ab\<in>set sp. fst ab < snd ab \<and> snd ab \<le> length ?S"
    using chain_ranges [OF ch] .
  have tr: "\<forall>s\<in>set ?S. trimmed s" by (rule split_into_sentences_trimmed)
  have eq1: "map (\<lambda>ab. strip (join '' '' (sentence_range ?S ab))) sp =
        map (\<lambda>ab. join '' '' (sentence_range ?S ab)) sp"
    using rng sentence_range_trimmed(1) [OF tr] by (intro map_cong) auto
  have eq2: "filter (\<lambda>c. c \<noteq> []) (map (\<lambda>ab. join '' '' (sentence_range ?S ab)) sp) =
        map (\<lambda>ab. join '' '' (sentence_range ?S ab)) sp"
    using rng sentence_range_trimmed(2) [OF tr] by (intro filter_True) auto
  have loop': "chunk_loop ?S ?T ?cs ?ov 0 [] [] =
      Some (map (\<lambda>ab. join '' '' (sentence_range ?S ab)) sp, sp)"
    using loop unfolding eq1 eq2 .
  then have "chunk_text cfg enc doc chunk_size overlap =
      Some (Inr (map (\<lambda>ab. join '' '' (sentence_range ?S ab)) sp))"
    using assms by (simp add: chunk_text_def Let_def)
  with loop' ch show ?thesis by blast
qed

text \<open>
  Claim C3 (forward progress). For a chunk size above zero the loop of the chunker returns.
  It runs at most once per sentence: the record holds one range per iteration and is no
  longer than the sentence list. The start index of every iteration is larger than that of
  the iteration before, and the start computed after a chunk that read the sentences from
  \<open>i\<close> up to \<open>j\<close> lies after \<open>i\<close>.
\<close>

theorem chunker_forward_progress:
  assumes "0 < or_default chunk_size (CHUNK_SIZE cfg)"
  shows "\<exists>chunks spans.
     chunk_loop (split_into_sentences doc) (map (count_tokens enc) (split_into_sentences doc))
       (or_default chunk_size (CHUNK_SIZE cfg)) (or_default overlap (CHUNK_OVERLAP cfg)) 0 [] [] =
       Some (chunks, spans)
     \<and> chunk_text cfg enc doc chunk_size overlap = Some (Inr chunks)
     \<and> length spans \<le> length (split_into_sentences doc)
     \<and> sorted_wrt (<) (map fst spans)
     \<and> (\<forall>i j. i < j \<longrightarrow>
           i < next_start (map (count_tokens enc) (split_into_sentences doc))
                 (or_default overlap (CHUNK_OVERLAP cfg)) i j)"
proof (cases "split_into_sentences doc = []")
  case True
  then have "chunk_loop (split_into_sentences doc) (map (count_tokens enc) (split_into_sentences doc))
       (or_default chunk_size (CHUNK_SIZE cfg)) (or_default overlap (CHUNK_OVERLAP cfg)) 0 [] [] =
       Some ([], [])"
    by (subst chunk_loop.simps) simp
  moreover have "chunk_text cfg enc doc chunk_size overlap = Some (Inr [])"
    using True assms by (simp add: chunk_text_def Let_def)
  ultimately show ?thesis using next_start_bounds by auto
next
  case False
  from chunk_text_spans [OF assms False, of enc overlap]
  obtain spans where
    "chunk_loop (split_into_sentences doc) (map (count_tokens enc) (split_into_sentences doc))
       (or_default chunk_size (CHUNK_SIZE cfg)) (or_default overlap (CHUNK_OVERLAP cfg)) 0 [] [] =
       Some (map (\<lambda>ab. join '' '' (sentence_range (split_into_sentences doc) ab)) spans, spans)"
    "chunk_text cfg enc doc chunk_size overlap =
       Some (Inr (map (\<lambda>ab. join '' '' (sentence_range (split_into_sentences doc) ab)) spans))"
    "chain (length (split_into_sentences doc)) 0 0 spans" by blast
  moreover from this(3) have "length spans \<le> length (split_into_sentences doc)"
    "sorted_wrt (<) (map fst spans)"
    using chain_length [of _ 0 0 spans] chain_starts [of _ 0 0 spans] by auto
  ultimately show ?thesis using next_start_bounds by blast
qed

theorem chunker_forward_progress_witness:
  "0 < or_default (Some 3) (CHUNK_SIZE \<lparr>CHUNK_SIZE = 1200, CHUNK_OVERLAP = 200, MAX_RETRIEVALS = 6,
        VECTOR_STORE_PATH = ''faiss.index'', METADATA_PATH = ''metadata.json''\<rparr>)
   \<and> (\<exists>chunks (spans :: (nat \<times> nat) list).
        chunk_text \<lparr>CHUNK_SIZE = 1200, CHUNK_OVERLAP = 200, MAX_RETRIEVALS = 6,
          VECTOR_STORE_PATH = ''faiss.index'', METADATA_PATH = ''metadata.json''\<rparr>
          None ''A b. C d. E f.'' (Some 3) (Some 2) = Some (Inr chunks)
        \<and> length spans \<le> 3
        \<and> sorted_wrt (<) (map fst spans))"
proof -
  let ?cfg = "\<lparr>CHUNK_SIZE = 1200, CHUNK_OVERLAP = 200, MAX_RETRIEVALS = 6,
        VECTOR_STORE_PATH = ''faiss.index'', METADATA_PATH = ''metadata.json''\<rparr>"
  have h: "0 < or_default (Some 3) (CHUNK_SIZE ?cfg)" by (simp add: or_default_def)
  have n: "length (split_into_sentences ''A b. C d. E f.'') = 3" by code_simp
  from chunker_forward_progress [OF h, where doc = "''A b. C d. E f.''" and enc = None
      and overlap = "Some 2"]
  obtain chunks and spans :: "(nat \<times> nat) list" where
    "chunk_text ?cfg None ''A b. C d. E f.'' (Some 3) (Some 2) = Some (Inr chunks)"
    "length spans \<le> length (split_into_sentences ''A b. C d. E f.'')"
    "sorted_wrt (<) (map fst spans)"
    by blast
  with h n show ?thesis by auto
qed

text \<open>
  Claim C7 (chunk coverage). For a chunk size above zero the chunks are the space-joined
  sentence ranges of the record, in order. Every range holds at least one sentence and no
  chunk is empty; every sentence lies in some range; and the portions that each chunk adds
  beyond the end of the chunk before it, put one after the other, are the sentence list
  itself, each portion lying inside its own chunk.
\<close>

theorem chunk_coverage:
  assumes "0 < or_default chunk_size (CHUNK_SIZE cfg)"
  shows "\<exists>spans.
     (split_into_sentences doc \<noteq> [] \<longrightarrow>
        chunk_loop (split_into_sentences doc) (map (count_tokens enc) (split_into_sentences doc))
          (or_default chunk_size (CHUNK_SIZE cfg)) (or_default overlap (CHUNK_OVERLAP cfg)) 0 [] [] =
        Some (map (\<lambda>ab. join '' '' (sentence_range (split_into_sentences doc) ab)) spans, spans))
     \<and> chunk_text cfg enc doc chunk_size overlap =
         Some (Inr (map (\<lambda>ab. join '' '' (sentence_range (split_into_sentences doc) ab)) spans))
     \<and> (\<forall>ab\<in>set spans. fst ab < snd ab \<and> snd ab \<le> length (split_into_sentences doc)
            \<and> join '' '' (sentence_range (split_into_sentences doc) ab) \<noteq> [])
     \<and> sorted_wrt (<) (map fst spans)
     \<and> (\<forall>s<length (split_into_sentences doc). \<exists>ab\<in>set spans. fst ab \<le> s \<and> s < snd ab)
     \<and> concat (map (sentence_range (split_into_sentences doc))
           (zip (0 # map snd spans) (map snd spans))) = split_into_sentences doc
     \<and> (\<forall>n<length spans. fst (spans ! n) \<le> (0 # map snd spans) ! n
            \<and> (0 # map snd spans) ! n \<le> snd (spans ! n))"
proof (cases "split_into_sentences doc = []")
  case True
  then have "chunk_text cfg enc doc chunk_size overlap = Some (Inr [])"
    using assms by (simp add: chunk_text_def Let_def)
  with True show ?thesis by (intro exI [of _ "[]"]) simp
next
  case False
  let ?S = "split_into_sentences doc"
  from chunk_text_spans [OF assms False, of enc overlap]
  obtain spans where loop:
    "chunk_loop ?S (map (count_tokens enc) ?S)
       (or_default chunk_size (CHUNK_SIZE cfg)) (or_default overlap (CHUNK_OVERLAP cfg)) 0 [] [] =
       Some (map (\<lambda>ab. join '' '' (sentence_range ?S ab)) spans, spans)"
    and res: "chunk_text cfg enc doc chunk_size overlap =
       Some (Inr (map (\<lambda>ab. join '' '' (sentence_range ?S ab)) spans))"
    and ch: "chain (length ?S) 0 0 spans" by blast
  have rng: "\<forall>ab\<in>set spans. fst ab < snd ab \<and> snd ab \<le> length ?S"
    using chain_ranges [OF ch] .
  have tr: "\<forall>s\<in>set ?S. trimmed s" by (rule split_into_sentences_trimmed)
  have ne: "\<forall>ab\<in>set spans. fst ab < snd ab \<and> snd ab \<le> length ?S
      \<and> join '' '' (sentence_range ?S ab) \<noteq> []"
    using rng sentence_range_trimmed(2) [OF tr] by blast
  have st: "sorted_wrt (<) (map fst spans)" using chain_starts [OF ch] by simp
  have cov: "\<forall>s<length ?S. \<exists>ab\<in>set spans. fst ab \<le> s \<and> s < snd ab"
    using chain_covers [OF ch] by simp
  have por: "concat (map (sentence_range ?S) (zip (0 # map snd spans) (map snd spans))) = ?S"
    "\<forall>n<length spans. fst (spans ! n) \<le> (0 # map snd spans) ! n
        \<and> (0 # map snd spans) ! n \<le> snd (spans ! n)"
    using chain_portions [OF ch] by simp_all
  show ?thesis
    using loop res ne st cov por by (intro exI [of _ spans]) (simp only: simp_thms)
qed

theorem chunk_coverage_witness:
  "0 < or_default None (CHUNK_SIZE \<lparr>CHUNK_SIZE = 3, CHUNK_OVERLAP = 2, MAX_RETRIEVALS = 6,
        VECTOR_STORE_PATH = ''faiss.index'', METADATA_PATH = ''metadata.json''\<rparr>)
   \<and> split_into_sentences ''A b. C d. E f.'' = [''A b.'', ''C d.'', ''E f.'']
   \<and> (\<exists>spans.
        chunk_text \<lparr>CHUNK_SIZE = 3, CHUNK_OVERLAP = 2, MAX_RETRIEVALS = 6,
          VECTOR_STORE_PATH = ''faiss.index'', METADATA_PATH = ''metadata.json''\<rparr>
          None ''A b. C d. E f.'' None None =
          Some (Inr (map (\<lambda>ab. join '' '' (sentence_range [''A b.'', ''C d.'', ''E f.''] ab)) spans))
        \<and> (\<forall>s<3. \<exists>ab\<in>set spans. fst ab \<le> s \<and> s < snd ab)
        \<and> concat (map (sentence_range [''A b.'', ''C d.'', ''E f.''])
              (zip (0 # map snd spans) (map snd spans))) = [''A b.'', ''C d.'', ''E f.''])"
proof -
  let ?cfg = "\<lparr>CHUNK_SIZE = 3, CHUNK_OVERLAP = 2, MAX_RETRIEVALS = 6,
        VECTOR_STORE_PATH = ''faiss.index'', METADATA_PATH = ''metadata.json''\<rparr>"
  have h: "0 < or_default None (CHUNK_SIZE ?cfg)" by (simp add: or_default_def)
  have n: "split_into_sentences ''A b. C d. E f.'' = [''A b.'', ''C d.'', ''E f.'']" by code_simp
  from chunk_coverage [OF h, where doc = "''A b. C d. E f.''" and enc = None and overlap = None]
  obtain spans where
    "chunk_text ?cfg None ''A b. C d. E f.'' None None =
       Some (Inr (map (\<lambda>ab. join '' '' (sentence_range (split_into_sentences ''A b. C d. E f.'') ab)) spans))"
    "\<forall>s<length (split_into_sentences ''A b. C d. E f.''). \<exists>ab\<in>set spans. fst ab \<le> s \<and> s < snd ab"
    "concat (map (sentence_range (split_into_sentences ''A b. C d. E f.''))
           (zip (0 # map snd spans) (map snd spans))) = split_into_sentences ''A b. C d. E f.''"
    by blast
  then show ?thesis using h unfolding n by (intro conjI exI [of _ spans]) simp_all
qed

text \<open>
  Claim C4 (non-positive chunk size is rejected). The claim fails at a chunk size of
  exactly zero: \<open>chunk_size or config.CHUNK_SIZE\<close> replaces the zero by the configured
  size before the check \<open>chunk_size <= 0\<close> is reached, and the call returns chunks. A
  negative size does raise.
\<close>

theorem chunk_text_zero_size:
  "chunk_text \<lparr>CHUNK_SIZE = 1200, CHUNK_OVERLAP = 200, MAX_RETRIEVALS = 6,
      VECTOR_STORE_PATH = ''faiss.index'', METADATA_PATH = ''metadata.json''\<rparr>
     None ''Hello world.'' (Some 0) None = Some (Inr [''Hello world.''])"
  by code_simp

lemma chunk_text_negative_size:
  "chunk_size < 0 \<Longrightarrow> chunk_text cfg enc doc (Some chunk_size) overlap = Some (Inl ValueError)"
  by (simp add: chunk_text_def or_default_def)

lemma chunk_text_zero_is_default:
  "chunk_text cfg enc doc (Some 0) overlap = chunk_text cfg enc doc None overlap"
  by (simp add: chunk_text_def or_default_def)

subsection \<open>Index builder\<close>













subsection \<open>Persisting the index\<close>



lemma debug_path_examples:
  "debug_path ''data/faiss.index'' = ''data/ingest_debug.json''
   \<and> debug_path ''./faiss.index'' = ''ingest_debug.json''
   \<and> debug_path ''faiss.index'' = ''ingest_debug.json''
   \<and> debug_path ''out//faiss.index'' = ''out/ingest_debug.json''
   \<and> debug_path ''/srv/./store/faiss.index'' = ''/srv/store/ingest_debug.json''"
  by code_simp

text \<open>
  Two path strings that name one file: with the index at \<open>./faiss.index\<close> and the metadata
  at \<open>ingest_debug.json\<close>, a call with \<open>debug\<close> writes the debug record over the metadata.
\<close>

lemma debug_file_over_metadata:
  "snd (write_outputs plain_env
     \<lparr>CHUNK_SIZE = 1200, CHUNK_OVERLAP = 200, MAX_RETRIEVALS = 6,
        VECTOR_STORE_PATH = ''./faiss.index'', METADATA_PATH = ''ingest_debug.json''\<rparr>
     True index metadata info fs) ! 2 = fs(''./faiss.index'' \<mapsto> IndexFile index,
                                            ''ingest_debug.json'' \<mapsto> DebugFile info)"
proof -
  have dp: "debug_path ''./faiss.index'' = ''ingest_debug.json''" by code_simp
  show ?thesis by (simp add: write_outputs_def plain_env_def Let_def dp)
qed




subsection \<open>Hybrid retriever\<close>

subsection \<open>Descending stable sort\<close>

lemma sort_desc_sorted: "sorted_wrt (\<lambda>a b. f a \<ge> f b) (sort_desc f xs)"
proof -
  have "sorted (map f (sort_key f (rev xs)))" by simp
  then have "sorted_wrt (\<lambda>a b. f a \<le> f b) (sort_key f (rev xs))"
    by (simp add: sorted_wrt_map)
  then show ?thesis by (simp add: sort_desc_def sorted_wrt_rev)
qed

lemma sort_desc_stable: "filter (\<lambda>x. f x = k) (sort_desc f xs) = filter (\<lambda>x. f x = k) xs"
proof -
  have "filter (\<lambda>x. f x = k) (sort_desc f xs) = rev (filter (\<lambda>x. f x = k) (sort_key f (rev xs)))"
    by (simp add: sort_desc_def rev_filter)
  also have "\<dots> = rev (filter (\<lambda>x. f x = k) (rev xs))" by (simp only: sort_key_stable)
  also have "\<dots> = filter (\<lambda>x. f x = k) xs" by (simp add: rev_filter)
  finally show ?thesis .
qed

lemma sort_desc_set [simp]: "set (sort_desc f xs) = set xs"
  by (simp add: sort_desc_def)

lemma sort_desc_length [simp]: "length (sort_desc f xs) = length xs"
  by (simp add: sort_desc_def)

lemma sort_desc_Nil [simp]: "sort_desc f [] = []"
  by (simp add: sort_desc_def)

lemma sort_desc_distinct_map: "distinct (map g (sort_desc f xs)) = distinct (map g xs)"
proof -
  have "mset (map g (sort_desc f xs)) = mset (map g xs)" by (simp add: sort_desc_def)
  then show ?thesis by (rule mset_eq_imp_distinct_iff)
qed

lemma slice_to_all: "int (length xs) \<le> n \<Longrightarrow> slice_to xs n = xs"
  by (simp add: slice_to_def)

lemma slice_to_set: "set (slice_to xs n) \<subseteq> set xs"
  by (auto simp: slice_to_def dest: in_set_takeD)

subsection \<open>The loops of retrieve\<close>

lemma item_at_valid: "0 \<le> i \<Longrightarrow> i < int (length xs) \<Longrightarrow> item_at xs i = Inr (xs ! nat i)"
  by (simp add: item_at_def)

lemma semantic_loop_eq:
  "semantic_loop metadata hits results = Inr (results @ spec_semantic metadata hits)"
proof (induction hits arbitrary: results)
  case Nil
  then show ?case by (simp add: spec_semantic_def)
next
  case (Cons h hits)
  obtain s idx where h: "h = (s, idx)" by (cases h)
  show ?case
  proof (cases "idx < 0 \<or> idx \<ge> int (length metadata)")
    case True
    then show ?thesis using Cons h by (auto simp: spec_semantic_def)
  next
    case False
    then have "item_at metadata idx = Inr (metadata ! nat idx)" by (simp add: item_at_valid)
    with False show ?thesis using Cons [of "results @ [make_result s (metadata ! nat idx)]"] h
      by (simp add: spec_semantic_def)
  qed
qed

lemma lex_loop_eq:
  "lex_loop query metadata acc =
     acc @ map (\<lambda>m. (keyword_score query (text m), m))
             (filter (\<lambda>m. 0 < keyword_score query (text m)) metadata)"
  by (induction metadata arbitrary: acc) (simp_all add: Let_def)

lemma merge_loop_eq:
  "int (length xs) \<le> lexical_k - added \<Longrightarrow>
   merge_loop ek lexical_k xs results added =
     results @ map (\<lambda>p. make_result (real (fst p) / 100) (snd p))
                 (filter (\<lambda>p. (doc_id (snd p), chunk_id (snd p)) \<notin> ek) xs)"
proof (induction xs arbitrary: results added)
  case Nil
  then show ?case by simp
next
  case (Cons x xs)
  obtain sc m where x: "x = (sc, m)" by (cases x)
  show ?case
  proof (cases "(doc_id m, chunk_id m) \<in> ek")
    case True
    with Cons x show ?thesis by simp
  next
    case False
    show ?thesis
    proof (cases "added + 1 \<ge> lexical_k")
      case True
      have "int (length (x # xs)) \<le> 1" using Cons.prems True by linarith
      then have "xs = []" by simp
      with True False x show ?thesis by (simp add: Let_def)
    next
      case ge: False
      from Cons.prems have "int (length xs) \<le> lexical_k - (added + 1)" by simp
      from Cons.IH [OF this] ge False x show ?thesis by (simp add: Let_def)
    qed
  qed
qed

lemma merge_loop_set:
  "set (merge_loop ek lexical_k xs results added) \<subseteq>
     set results \<union> (\<lambda>p. make_result (real (fst p) / 100) (snd p)) ` set xs"
proof (induction xs arbitrary: results added)
  case Nil
  then show ?case by simp
next
  case (Cons x xs)
  obtain sc m where x: "x = (sc, m)" by (cases x)
  show ?case
    using Cons [of results added] Cons [of "results @ [make_result (real sc / 100) m]" "added + 1"] x
    by (auto simp: Let_def)
qed

lemma lexical_fallback_eq:
  assumes "0 \<le> lexical_k"
  shows "lexical_fallback query metadata lexical_k results =
     results @ map (\<lambda>p. make_result (real (fst p) / 100) (snd p))
       (filter (\<lambda>p. (doc_id (snd p), chunk_id (snd p)) \<notin> set (map (\<lambda>r. (doc_id r, chunk_id r)) results))
          (take (nat lexical_k) (spec_ranked query metadata)))"
proof -
  have r: "sort_desc fst (lex_loop query metadata []) = spec_ranked query metadata"
    by (simp add: lex_loop_eq spec_ranked_def)
  have s: "slice_to (spec_ranked query metadata) lexical_k = take (nat lexical_k) (spec_ranked query metadata)"
    using assms by (simp add: slice_to_def)
  have "int (length (take (nat lexical_k) (spec_ranked query metadata))) \<le> lexical_k - 0"
    using assms by simp
  from merge_loop_eq [OF this] show ?thesis
    by (simp add: lexical_fallback_def Let_def r s)
qed

lemma lexical_fallback_set:
  "set (lexical_fallback query metadata lexical_k results) \<subseteq>
     set results \<union> (\<lambda>m. make_result (real (keyword_score query (text m)) / 100) m) ` set metadata"
proof -
  let ?xs = "slice_to (sort_desc fst (lex_loop query metadata [])) lexical_k"
  have "set ?xs \<subseteq> set (lex_loop query metadata [])"
    using slice_to_set [of "sort_desc fst (lex_loop query metadata [])" lexical_k] by simp
  also have "\<dots> \<subseteq> (\<lambda>m. (keyword_score query (text m), m)) ` set metadata"
    by (auto simp: lex_loop_eq)
  finally have "(\<lambda>p. make_result (real (fst p) / 100) (snd p)) ` set ?xs \<subseteq>
      (\<lambda>m. make_result (real (keyword_score query (text m)) / 100) m) ` set metadata"
    by auto
  with merge_loop_set [of "set (map (\<lambda>r. (doc_id r, chunk_id r)) results)" lexical_k ?xs results 0]
  show ?thesis by (auto simp: lexical_fallback_def Let_def)
qed

lemma retrieve_eq:
  "retrieve cfg hits query metadata k lexical_k thr =
     Inr (sort_desc score
            (if top_score (spec_semantic metadata hits) < thr
             then lexical_fallback query metadata lexical_k (spec_semantic metadata hits)
             else spec_semantic metadata hits))"
  by (simp add: retrieve_def semantic_loop_eq Let_def slice_to_all)

lemma spec_semantic_scores:
  "map score (spec_semantic metadata hits) =
     map fst (filter (\<lambda>h. 0 \<le> snd h \<and> snd h < int (length metadata)) hits)"
  by (simp add: spec_semantic_def make_result_def comp_def)

lemma top_score_best:
  assumes "sorted_wrt (\<ge>) (map fst hits)"
  shows "\<forall>r\<in>set (spec_semantic metadata hits). score r \<le> top_score (spec_semantic metadata hits)"
proof -
  let ?sem = "spec_semantic metadata hits"
  have "sorted_wrt (\<ge>) (map fst (filter (\<lambda>h. 0 \<le> snd h \<and> snd h < int (length metadata)) hits))"
    using assms by (simp add: sorted_wrt_map sorted_wrt_filter)
  then have s: "sorted_wrt (\<ge>) (map score ?sem)" by (simp only: spec_semantic_scores)
  show ?thesis
  proof (cases ?sem)
    case Nil
    then show ?thesis by simp
  next
    case (Cons r rs)
    with s show ?thesis by (auto simp: top_score_def)
  qed
qed

lemma spec_semantic_keys_distinct:
  assumes "distinct (map (\<lambda>m. (doc_id m, chunk_id m)) metadata)"
    and "distinct (map snd (filter (\<lambda>h. 0 \<le> snd h \<and> snd h < int (length metadata)) hits))"
  shows "distinct (map (\<lambda>r. (doc_id r, chunk_id r)) (spec_semantic metadata hits))"
proof -
  let ?valid = "filter (\<lambda>h. 0 \<le> snd h \<and> snd h < int (length metadata)) hits"
  let ?key = "\<lambda>m::chunk_meta. (doc_id m, chunk_id m)"
  have eq: "map (\<lambda>r. (doc_id r, chunk_id r)) (spec_semantic metadata hits) =
      map (\<lambda>i. map ?key metadata ! nat i) (map snd ?valid)"
    by (simp add: spec_semantic_def make_result_def comp_def nat_less_iff)
  have inj: "inj_on (\<lambda>i. map ?key metadata ! nat i) (set (map snd ?valid))"
  proof (rule inj_onI)
    fix i j assume i: "i \<in> set (map snd ?valid)" and j: "j \<in> set (map snd ?valid)"
      and e: "map ?key metadata ! nat i = map ?key metadata ! nat j"
    from i j have "nat i < length (map ?key metadata)" "nat j < length (map ?key metadata)"
      "0 \<le> i" "0 \<le> j" by auto
    with e assms(1) show "i = j" by (simp add: nth_eq_iff_index_eq del: length_map nth_map)
  qed
  show ?thesis unfolding eq
    by (rule iffD2 [OF distinct_map]) (use assms(2) inj in blast)
qed

lemma spec_ranked_keys_distinct:
  assumes "distinct (map (\<lambda>m. (doc_id m, chunk_id m)) metadata)"
  shows "distinct (map (\<lambda>p. (doc_id (snd p), chunk_id (snd p))) (spec_ranked query metadata))"
proof -
  have "distinct (map (\<lambda>m. (doc_id m, chunk_id m)) (filter (\<lambda>m. 0 < keyword_score query (text m)) metadata))"
    using assms by (rule distinct_map_filter)
  then show ?thesis
    by (simp add: spec_ranked_def sort_desc_distinct_map comp_def)
qed

lemma spec_merged_keys_distinct:
  assumes "distinct (map (\<lambda>m. (doc_id m, chunk_id m)) metadata)"
    and "distinct (map (\<lambda>r. (doc_id r, chunk_id r)) sem)"
  shows "distinct (map (\<lambda>r. (doc_id r, chunk_id r)) (spec_merged query metadata lexical_k thr sem))"
proof -
  let ?ek = "set (map (\<lambda>r. (doc_id r, chunk_id r)) sem)"
  let ?adds = "filter (\<lambda>p. (doc_id (snd p), chunk_id (snd p)) \<notin> ?ek)
      (take (nat lexical_k) (spec_ranked query metadata))"
  have "distinct (map (\<lambda>p. (doc_id (snd p), chunk_id (snd p))) (take (nat lexical_k) (spec_ranked query metadata)))"
    using spec_ranked_keys_distinct [OF assms(1), of query]
    by (simp add: take_map [symmetric] distinct_take)
  then have d: "distinct (map (\<lambda>p. (doc_id (snd p), chunk_id (snd p))) ?adds)"
    by (rule distinct_map_filter)
  have k: "map (\<lambda>r. (doc_id r, chunk_id r)) (map (\<lambda>p. make_result (real (fst p) / 100) (snd p)) ?adds)
      = map (\<lambda>p. (doc_id (snd p), chunk_id (snd p))) ?adds"
    by (simp add: make_result_def comp_def)
  have disj: "?ek \<inter> set (map (\<lambda>p. (doc_id (snd p), chunk_id (snd p))) ?adds) = {}"
    by (auto simp: image_iff)
  show ?thesis
  proof (cases "top_score sem < thr")
    case True
    have "map (\<lambda>r. (doc_id r, chunk_id r)) (spec_merged query metadata lexical_k thr sem) =
        map (\<lambda>r. (doc_id r, chunk_id r)) sem @ map (\<lambda>p. (doc_id (snd p), chunk_id (snd p))) ?adds"
      unfolding spec_merged_def using True k by (simp only: if_True map_append)
    then show ?thesis using d assms(2) disj by (simp only: distinct_append simp_thms)
  next
    case False
    then show ?thesis using assms(2) by (simp add: spec_merged_def)
  qed
qed

text \<open>
  Claim C6 (hybrid retrieval). For a \<open>lexical_k\<close> that is not negative, \<open>retrieve\<close>
  returns what the specification describes: the lexical fallback runs exactly when the score
  of the first semantic result (the best one, as the search lists its hits by descending
  score; 0 when there is none) is below the threshold; the lexical score of a record is the
  number of distinct lower-case word tokens that the query and the text of the record share;
  the records of positive lexical score are ranked descending by it and cut to \<open>lexical_k\<close>;
  those whose \<open>(doc_id, chunk_id)\<close> is not among the semantic results are added with the
  score \<open>lexical_score / 100\<close>. The result is ordered by descending score, results of equal
  score keep the order in which they were found, and over a metadata store with one record
  per \<open>(doc_id, chunk_id)\<close> no key occurs twice in it.
\<close>

theorem retrieve_hybrid:
  assumes "0 \<le> lexical_k"
  shows "retrieve cfg hits query metadata k lexical_k thr =
           Inr (spec_retrieve hits query metadata lexical_k thr)
    \<and> keyword_score query body =
        card (set (findall_words (lower query)) \<inter> set (findall_words (lower body)))
    \<and> sorted_wrt (\<lambda>a b. score a \<ge> score b) (spec_retrieve hits query metadata lexical_k thr)
    \<and> (\<forall>s. filter (\<lambda>r. score r = s) (spec_retrieve hits query metadata lexical_k thr) =
            filter (\<lambda>r. score r = s)
              (spec_merged query metadata lexical_k thr (spec_semantic metadata hits)))
    \<and> (sorted_wrt (\<ge>) (map fst hits) \<longrightarrow>
          (\<forall>r\<in>set (spec_semantic metadata hits). score r \<le> top_score (spec_semantic metadata hits)))
    \<and> (distinct (map (\<lambda>m. (doc_id m, chunk_id m)) metadata) \<and>
        distinct (map snd (filter (\<lambda>h. 0 \<le> snd h \<and> snd h < int (length metadata)) hits)) \<longrightarrow>
          distinct (map (\<lambda>r. (doc_id r, chunk_id r)) (spec_retrieve hits query metadata lexical_k thr)))"
proof -
  let ?sem = "spec_semantic metadata hits"
  have "(if top_score ?sem < thr then lexical_fallback query metadata lexical_k ?sem else ?sem)
      = spec_merged query metadata lexical_k thr ?sem"
    by (simp add: spec_merged_def lexical_fallback_eq [OF assms])
  then have 1: "retrieve cfg hits query metadata k lexical_k thr =
      Inr (spec_retrieve hits query metadata lexical_k thr)"
    by (simp only: retrieve_eq spec_retrieve_def)
  have 2: "keyword_score query body =
      card (set (findall_words (lower query)) \<inter> set (findall_words (lower body)))"
    by (simp add: keyword_score_def)
  have 3: "sorted_wrt (\<lambda>a b. score a \<ge> score b) (spec_retrieve hits query metadata lexical_k thr)"
    unfolding spec_retrieve_def by (rule sort_desc_sorted)
  have 4: "\<forall>s. filter (\<lambda>r. score r = s) (spec_retrieve hits query metadata lexical_k thr) =
      filter (\<lambda>r. score r = s) (spec_merged query metadata lexical_k thr ?sem)"
    unfolding spec_retrieve_def by (simp only: sort_desc_stable simp_thms)
  have 5: "sorted_wrt (\<ge>) (map fst hits) \<longrightarrow> (\<forall>r\<in>set ?sem. score r \<le> top_score ?sem)"
    using top_score_best by blast
  have 6: "distinct (map (\<lambda>m. (doc_id m, chunk_id m)) metadata) \<and>
        distinct (map snd (filter (\<lambda>h. 0 \<le> snd h \<and> snd h < int (length metadata)) hits)) \<longrightarrow>
          distinct (map (\<lambda>r. (doc_id r, chunk_id r)) (spec_retrieve hits query metadata lexical_k thr))"
    unfolding spec_retrieve_def
    by (simp only: sort_desc_distinct_map) (blast intro: spec_merged_keys_distinct spec_semantic_keys_distinct)
  from 1 2 3 4 5 6 show ?thesis by (simp only: simp_thms)
qed

theorem retrieve_hybrid_witness:
  "(0::int) \<le> 10
   \<and> sorted_wrt (\<ge>) (map fst [(0.1::real, 2::int), (0.05, -1), (0.04, 7)])
   \<and> retrieve \<lparr>CHUNK_SIZE = 1200, CHUNK_OVERLAP = 200, MAX_RETRIEVALS = 6,
        VECTOR_STORE_PATH = ''faiss.index'', METADATA_PATH = ''metadata.json''\<rparr>
       [(0.1, 2), (0.05, -1), (0.04, 7)] ''late expense reports''
       [\<lparr>doc_id = ''a.txt'', chunk_id = 0, text = ''Expense reports are due in 30 days.''\<rparr>,
        \<lparr>doc_id = ''a.txt'', chunk_id = 1, text = ''Late reports need approval.''\<rparr>,
        \<lparr>doc_id = ''b.txt'', chunk_id = 0, text = ''Parking is free.''\<rparr>]
       None 10 0.18 =
     Inr [\<lparr>doc_id = ''b.txt'', chunk_id = 0, text = ''Parking is free.'', score = 0.1\<rparr>,
          \<lparr>doc_id = ''a.txt'', chunk_id = 0, text = ''Expense reports are due in 30 days.'', score = 0.02\<rparr>,
          \<lparr>doc_id = ''a.txt'', chunk_id = 1, text = ''Late reports need approval.'', score = 0.02\<rparr>]"
proof -
  let ?cfg = "\<lparr>CHUNK_SIZE = 1200, CHUNK_OVERLAP = 200, MAX_RETRIEVALS = 6,
        VECTOR_STORE_PATH = ''faiss.index'', METADATA_PATH = ''metadata.json''\<rparr>"
  let ?hits = "[(0.1::real, 2::int), (0.05, -1), (0.04, 7)]"
  let ?md = "[\<lparr>doc_id = ''a.txt'', chunk_id = 0, text = ''Expense reports are due in 30 days.''\<rparr>,
        \<lparr>doc_id = ''a.txt'', chunk_id = 1, text = ''Late reports need approval.''\<rparr>,
        \<lparr>doc_id = ''b.txt'', chunk_id = 0, text = ''Parking is free.''\<rparr>]"
  have h: "(0::int) \<le> 10" by simp
  have s: "sorted_wrt (\<ge>) (map fst ?hits)" by simp
  have e: "spec_retrieve ?hits ''late expense reports'' ?md 10 0.18 =
     [\<lparr>doc_id = ''b.txt'', chunk_id = 0, text = ''Parking is free.'', score = 0.1\<rparr>,
      \<lparr>doc_id = ''a.txt'', chunk_id = 0, text = ''Expense reports are due in 30 days.'', score = 0.02\<rparr>,
      \<lparr>doc_id = ''a.txt'', chunk_id = 1, text = ''Late reports need approval.'', score = 0.02\<rparr>]"
    by code_simp
  from retrieve_hybrid [OF h, where cfg = ?cfg and hits = ?hits and query = "''late expense reports''"
      and metadata = ?md and k = None and thr = "0.18"]
  have "retrieve ?cfg ?hits ''late expense reports'' ?md None 10 0.18 =
      Inr (spec_retrieve ?hits ''late expense reports'' ?md 10 0.18)"
    by (rule conjunct1)
  with e h s show ?thesis by (simp only: simp_thms)
qed

text \<open>
  Claim C8 (invalid positions are discarded). \<open>retrieve\<close> never fails on the metadata
  read: the semantic results are built from exactly the hits whose position lies in
  \<open>[0, len(metadata))\<close>, and every returned result stems from such a hit or is the lexical
  result of a metadata record.
\<close>

theorem retrieve_discards_invalid_indices:
  "\<exists>results.
     retrieve cfg hits query metadata k lexical_k thr = Inr results
     \<and> semantic_loop metadata hits [] =
         Inr (map (\<lambda>h. make_result (fst h) (metadata ! nat (snd h)))
                (filter (\<lambda>h. 0 \<le> snd h \<and> snd h < int (length metadata)) hits))
     \<and> (\<forall>r\<in>set results.
          (\<exists>h\<in>set hits. 0 \<le> snd h \<and> snd h < int (length metadata)
              \<and> r = make_result (fst h) (metadata ! nat (snd h)))
          \<or> (\<exists>m\<in>set metadata. r = make_result (real (keyword_score query (text m)) / 100) m))"
proof -
  let ?sem = "spec_semantic metadata hits"
  let ?merged = "if top_score ?sem < thr then lexical_fallback query metadata lexical_k ?sem else ?sem"
  have 1: "retrieve cfg hits query metadata k lexical_k thr = Inr (sort_desc score ?merged)"
    by (rule retrieve_eq)
  have 2: "semantic_loop metadata hits [] =
         Inr (map (\<lambda>h. make_result (fst h) (metadata ! nat (snd h)))
                (filter (\<lambda>h. 0 \<le> snd h \<and> snd h < int (length metadata)) hits))"
    using semantic_loop_eq [of metadata hits "[]"] by (simp add: spec_semantic_def)
  have "set ?merged \<subseteq> set ?sem \<union>
      (\<lambda>m. make_result (real (keyword_score query (text m)) / 100) m) ` set metadata"
    using lexical_fallback_set [of query metadata lexical_k ?sem] by auto
  then have 3: "\<forall>r\<in>set (sort_desc score ?merged).
          (\<exists>h\<in>set hits. 0 \<le> snd h \<and> snd h < int (length metadata)
              \<and> r = make_result (fst h) (metadata ! nat (snd h)))
          \<or> (\<exists>m\<in>set metadata. r = make_result (real (keyword_score query (text m)) / 100) m)"
    by (fastforce simp: spec_semantic_def)
  from 1 2 3 show ?thesis by blast
qed

theorem retrieve_discards_invalid_indices_witness:
  "retrieve \<lparr>CHUNK_SIZE = 1200, CHUNK_OVERLAP = 200, MAX_RETRIEVALS = 6,
        VECTOR_STORE_PATH = ''faiss.index'', METADATA_PATH = ''metadata.json''\<rparr>
       [(0.9, 3), (0.5, -1), (0.4, 1)] ''parking''
       [\<lparr>doc_id = ''a.txt'', chunk_id = 0, text = ''Expense reports are due in 30 days.''\<rparr>,
        \<lparr>doc_id = ''a.txt'', chunk_id = 1, text = ''Late reports need approval.''\<rparr>,
        \<lparr>doc_id = ''b.txt'', chunk_id = 0, text = ''Parking is free.''\<rparr>]
       None 10 0.18 =
     Inr [\<lparr>doc_id = ''a.txt'', chunk_id = 1, text = ''Late reports need approval.'', score = 0.4\<rparr>]
   \<and> semantic_loop
       [\<lparr>doc_id = ''a.txt'', chunk_id = 0, text = ''Expense reports are due in 30 days.''\<rparr>,
        \<lparr>doc_id = ''a.txt'', chunk_id = 1, text = ''Late reports need approval.''\<rparr>,
        \<lparr>doc_id = ''b.txt'', chunk_id = 0, text = ''Parking is free.''\<rparr>]
       [(0.9, 3), (0.5, -1), (0.4, 1)] [] =
     Inr [\<lparr>doc_id = ''a.txt'', chunk_id = 1, text = ''Late reports need approval.'', score = 0.4\<rparr>]"
proof -
  let ?cfg = "\<lparr>CHUNK_SIZE = 1200, CHUNK_OVERLAP = 200, MAX_RETRIEVALS = 6,
        VECTOR_STORE_PATH = ''faiss.index'', METADATA_PATH = ''metadata.json''\<rparr>"
  let ?hits = "[(0.9::real, 3::int), (0.5, -1), (0.4, 1)]"
  let ?md = "[\<lparr>doc_id = ''a.txt'', chunk_id = 0, text = ''Expense reports are due in 30 days.''\<rparr>,
        \<lparr>doc_id = ''a.txt'', chunk_id = 1, text = ''Late reports need approval.''\<rparr>,
        \<lparr>doc_id = ''b.txt'', chunk_id = 0, text = ''Parking is free.''\<rparr>]"
  have v: "map (\<lambda>h. make_result (fst h) (?md ! nat (snd h)))
             (filter (\<lambda>h. 0 \<le> snd h \<and> snd h < int (length ?md)) ?hits) =
      [\<lparr>doc_id = ''a.txt'', chunk_id = 1, text = ''Late reports need approval.'', score = 0.4\<rparr>]"
    by (simp add: make_result_def)
  from retrieve_discards_invalid_indices [of ?cfg ?hits "''parking''" ?md None 10 "0.18"]
  obtain results where r: "retrieve ?cfg ?hits ''parking'' ?md None 10 0.18 = Inr results"
    and l: "semantic_loop ?md ?hits [] =
         Inr (map (\<lambda>h. make_result (fst h) (?md ! nat (snd h)))
                (filter (\<lambda>h. 0 \<le> snd h \<and> snd h < int (length ?md)) ?hits))"
    by blast
  have e: "retrieve ?cfg ?hits ''parking'' ?md None 10 0.18 =
      Inr [\<lparr>doc_id = ''a.txt'', chunk_id = 1, text = ''Late reports need approval.'', score = 0.4\<rparr>]"
    by code_simp
  from l v e show ?thesis by (simp only: simp_thms)
qed

text \<open>
  Claim C10 (no valid semantic result). When no hit has a position in range, there is no
  semantic result, the top score is taken as 0, which is below the default threshold 0.18,
  and the call returns the sorted outcome of the lexical fallback on the empty result list;
  when no record shares a word with the query, that is the empty list, and no error.
\<close>

theorem retrieve_without_valid_hits:
  assumes "\<forall>h\<in>set hits. snd h < 0 \<or> int (length metadata) \<le> snd h"
  shows "semantic_loop metadata hits [] = Inr []
    \<and> top_score [] = 0
    \<and> top_score [] < default_sim_threshold
    \<and> retrieve cfg hits query metadata k lexical_k default_sim_threshold =
        Inr (sort_desc score (lexical_fallback query metadata lexical_k []))
    \<and> ((\<forall>m\<in>set metadata. keyword_score query (text m) = 0) \<longrightarrow>
          retrieve cfg hits query metadata k lexical_k default_sim_threshold = Inr [])"
proof -
  have "filter (\<lambda>h. 0 \<le> snd h \<and> snd h < int (length metadata)) hits = []"
    using assms by (auto simp: filter_empty_conv)
  then have sem: "spec_semantic metadata hits = []" by (simp add: spec_semantic_def)
  have 1: "semantic_loop metadata hits [] = Inr []"
    using semantic_loop_eq [of metadata hits "[]"] sem by simp
  have 2: "top_score [] = 0" by (simp add: top_score_def)
  have 3: "top_score [] < default_sim_threshold"
    by (simp add: top_score_def default_sim_threshold_def)
  have 4: "retrieve cfg hits query metadata k lexical_k default_sim_threshold =
        Inr (sort_desc score (lexical_fallback query metadata lexical_k []))"
    using 3 by (simp add: retrieve_eq sem)
  have 5: "(\<forall>m\<in>set metadata. keyword_score query (text m) = 0) \<longrightarrow>
          retrieve cfg hits query metadata k lexical_k default_sim_threshold = Inr []"
  proof
    assume z: "\<forall>m\<in>set metadata. keyword_score query (text m) = 0"
    then have "filter (\<lambda>m. 0 < keyword_score query (text m)) metadata = []"
      by (auto simp: filter_empty_conv)
    then have "lex_loop query metadata [] = []" by (simp add: lex_loop_eq)
    then have "lexical_fallback query metadata lexical_k [] = []"
      by (simp add: lexical_fallback_def slice_to_def)
    with 4 show "retrieve cfg hits query metadata k lexical_k default_sim_threshold = Inr []"
      by simp
  qed
  from 1 2 3 4 5 show ?thesis by (simp only: simp_thms)
qed

theorem retrieve_without_valid_hits_witness:
  "list_all (\<lambda>h. snd h < 0 \<or> int (length
        [\<lparr>doc_id = ''a.txt'', chunk_id = 0, text = ''Expense reports are due in 30 days.''\<rparr>,
         \<lparr>doc_id = ''b.txt'', chunk_id = 0, text = ''Parking is free.''\<rparr>]) \<le> snd h)
      [(0.5::real, -1::int), (0.4, 7)]
   \<and> list_all (\<lambda>m. keyword_score ''holiday'' (text m) = 0)
        [\<lparr>doc_id = ''a.txt'', chunk_id = 0, text = ''Expense reports are due in 30 days.''\<rparr>,
         \<lparr>doc_id = ''b.txt'', chunk_id = 0, text = ''Parking is free.''\<rparr>]
   \<and> retrieve \<lparr>CHUNK_SIZE = 1200, CHUNK_OVERLAP = 200, MAX_RETRIEVALS = 6,
        VECTOR_STORE_PATH = ''faiss.index'', METADATA_PATH = ''metadata.json''\<rparr>
       [(0.5, -1), (0.4, 7)] ''holiday''
       [\<lparr>doc_id = ''a.txt'', chunk_id = 0, text = ''Expense reports are due in 30 days.''\<rparr>,
        \<lparr>doc_id = ''b.txt'', chunk_id = 0, text = ''Parking is free.''\<rparr>]
       None 10 default_sim_threshold = Inr []"
proof -
  let ?cfg = "\<lparr>CHUNK_SIZE = 1200, CHUNK_OVERLAP = 200, MAX_RETRIEVALS = 6,
        VECTOR_STORE_PATH = ''faiss.index'', METADATA_PATH = ''metadata.json''\<rparr>"
  let ?hits = "[(0.5::real, -1::int), (0.4, 7)]"
  let ?md = "[\<lparr>doc_id = ''a.txt'', chunk_id = 0, text = ''Expense reports are due in 30 days.''\<rparr>,
         \<lparr>doc_id = ''b.txt'', chunk_id = 0, text = ''Parking is free.''\<rparr>]"
  have h: "list_all (\<lambda>h. snd h < 0 \<or> int (length ?md) \<le> snd h) ?hits" by simp
  have z: "list_all (\<lambda>m. keyword_score ''holiday'' (text m) = 0) ?md" by code_simp
  have h': "\<forall>h\<in>set ?hits. snd h < 0 \<or> int (length ?md) \<le> snd h"
    using h by (simp only: list_all_iff)
  have z': "\<forall>m\<in>set ?md. keyword_score ''holiday'' (text m) = 0"
    using z by (simp only: list_all_iff)
  from retrieve_without_valid_hits [OF h', where query = "''holiday''" and cfg = ?cfg and k = None and lexical_k = 10] z'
  have "retrieve ?cfg ?hits ''holiday'' ?md None 10 default_sim_threshold = Inr []" by blast
  with h z show ?thesis by (simp only: simp_thms)
qed

end
